theory Spec2Isabelle
  imports Main "HOL-Library.Word"
begin

unbundle bit_operations_syntax

section \<open>Bytes, digests and outcomes\<close>

text \<open>
  The embedding follows \<^verbatim>\<open>blob/merkle.go\<close>. A byte is an 8-bit word. A digest
  (\<^verbatim>\<open>crypto.Hash\<close>, a \<^verbatim>\<open>[32]byte\<close>) is a byte list; that it has exactly 32 bytes is
  an invariant of the Go type, stated as \<open>hash_ok\<close> where a property depends on it.
  A tree (\<^verbatim>\<open>MerkleTree\<close>, a \<^verbatim>\<open>[][]crypto.Hash\<close>) is the list of its levels, the root
  level first. A base (\<^verbatim>\<open>MerkleBase\<close>, a \<^verbatim>\<open>[256]crypto.Hash\<close>) is a list of digests.
\<close>

type_synonym byte = "8 word"
type_synonym Hash = "byte list"
type_synonym MerkleTree = "Hash list list"
type_synonym MerkleBase = "Hash list"
type_synonym MerkleProof = "byte list"

definition hash_ok :: "Hash \<Rightarrow> bool" where
  "hash_ok h \<longleftrightarrow> length h = 32"

text \<open>
  Every way a call of the source can end: it returns a value, it returns a non-nil
  \<^verbatim>\<open>error\<close>, or it panics (an index out of range, a negative \<^verbatim>\<open>make\<close>, an explicit
  \<^verbatim>\<open>panic\<close>).
\<close>

datatype error =
    EOF
  | ErrUnexpectedEOF
  | ErrLeafCountTooLarge
  | ErrLeafCountNotPowerOfTwo
  | ErrBaseNotPowerOfTwo
  | ErrTreeTooDeep

datatype 'a result = Ok 'a | Err error | Panic

fun is_Err :: "'a result \<Rightarrow> bool" where
  "is_Err (Err e) = True"
| "is_Err (Ok v) = False"
| "is_Err Panic = False"

section \<open>Readers and writers\<close>

text \<open>
  An \<^verbatim>\<open>io.Reader\<close> is modelled as a \<^verbatim>\<open>bytes.Reader\<close>: its state is the list of bytes not
  yet read. \<open>Read r buf\<close> is \<^verbatim>\<open>r.Read(buf)\<close>: at the end of the input it returns
  \<^verbatim>\<open>io.EOF\<close>; otherwise it copies \<open>n = min (len buf) (remaining)\<close> bytes over the
  front of \<open>buf\<close> and returns without an error, also when \<open>n < len buf\<close>. The result is
  the buffer after the call and the reader after the call.

  \<open>ReadFull r buf\<close> is \<^verbatim>\<open>io.ReadFull(r, buf)\<close>: it fills the whole buffer or fails, with
  \<^verbatim>\<open>io.EOF\<close> when no byte was read and \<^verbatim>\<open>io.ErrUnexpectedEOF\<close> when the input ended
  part way; an empty buffer is filled without reading.

  An \<^verbatim>\<open>io.Writer\<close> is modelled as a \<^verbatim>\<open>bytes.Buffer\<close>: the list of bytes written so far;
  its \<^verbatim>\<open>Write\<close> appends and never fails.
\<close>

type_synonym Reader = "byte list"
type_synonym Writer = "byte list"

definition Read :: "Reader \<Rightarrow> byte list \<Rightarrow> (byte list \<times> Reader) result" where
  "Read r buf =
     (if r = [] then Err EOF
      else Ok (take (min (length buf) (length r)) r @ drop (min (length buf) (length r)) buf,
               drop (min (length buf) (length r)) r))"

definition ReadFull :: "Reader \<Rightarrow> byte list \<Rightarrow> (byte list \<times> Reader) result" where
  "ReadFull r buf =
     (if length buf = 0 then Ok (buf, r)
      else if r = [] then Err EOF
      else if length r < length buf then Err ErrUnexpectedEOF
      else Ok (take (length buf) r, drop (length buf) r))"

definition Write :: "Writer \<Rightarrow> byte list \<Rightarrow> Writer" where
  "Write w bs = w @ bs"

section \<open>Blake2b-256\<close>

text \<open>
  Modelled from the spec: the package \<^verbatim>\<open>ddrp/crypto\<close> is not in the source at hand, and
  the spec names its digest function as Blake2b-256. This section is Blake2b as RFC 7693
  defines it. 64-bit words are integers, with the wrap-around written out.
\<close>

type_synonym quad = "int \<times> int \<times> int \<times> int"

definition add64 :: "int \<Rightarrow> int \<Rightarrow> int" where
  "add64 a b = (a + b) mod 2 ^ 64"

definition rotr64 :: "nat \<Rightarrow> int \<Rightarrow> int" where
  "rotr64 n x = drop_bit n x OR push_bit (64 - n) (take_bit n x)"

lemma add64_code [code]: "add64 a b = (a + b) AND 0xFFFFFFFFFFFFFFFF"
proof -
  have m: "(0xFFFFFFFFFFFFFFFF :: int) = mask 64"
    by (simp add: mask_eq_exp_minus_1)
  have "add64 a b = take_bit 64 (a + b)"
    unfolding add64_def by (simp only: take_bit_eq_mod)
  also have "\<dots> = (a + b) AND mask 64"
    by (simp only: take_bit_eq_mask)
  finally show ?thesis unfolding m .
qed

definition blake2b_IV :: "int list" where
  "blake2b_IV =
    [0x6a09e667f3bcc908, 0xbb67ae8584caa73b, 0x3c6ef372fe94f82b, 0xa54ff53a5f1d36f1,
     0x510e527fade682d1, 0x9b05688c2b3e6c1f, 0x1f83d9abfb41bd6b, 0x5be0cd19137e2179]"

definition blake2b_SIGMA :: "nat list list" where
  "blake2b_SIGMA =
    [[0, 1, 2, 3, 4, 5, 6, 7, 8, 9, 10, 11, 12, 13, 14, 15],
     [14, 10, 4, 8, 9, 15, 13, 6, 1, 12, 0, 2, 11, 7, 5, 3],
     [11, 8, 12, 0, 5, 2, 15, 13, 10, 14, 3, 6, 7, 1, 9, 4],
     [7, 9, 3, 1, 13, 12, 11, 14, 2, 6, 5, 10, 4, 0, 15, 8],
     [9, 0, 5, 7, 2, 4, 10, 15, 14, 1, 11, 12, 6, 8, 3, 13],
     [2, 12, 6, 10, 0, 11, 8, 3, 4, 13, 7, 5, 15, 14, 1, 9],
     [12, 5, 1, 15, 14, 13, 4, 10, 0, 7, 6, 3, 9, 2, 8, 11],
     [13, 11, 7, 14, 12, 1, 3, 9, 5, 0, 15, 4, 8, 6, 2, 10],
     [6, 15, 14, 9, 11, 3, 0, 8, 12, 2, 13, 7, 1, 4, 10, 5],
     [10, 2, 8, 4, 7, 6, 1, 5, 15, 11, 9, 14, 3, 12, 13, 0]]"

text \<open>
  The mixing function G of RFC 7693 on the four state words it touches, one assignment
  per function: \<open>a := a + b + x\<close>, \<open>d := (d xor a) >>> r\<close>, \<open>c := c + d\<close>,
  \<open>b := (b xor c) >>> r\<close>.
\<close>

fun mix_a :: "int \<Rightarrow> quad \<Rightarrow> quad" where
  "mix_a x (a, b, c, d) = (add64 (add64 a b) x, b, c, d)"

fun mix_d :: "nat \<Rightarrow> quad \<Rightarrow> quad" where
  "mix_d r (a, b, c, d) = (a, b, c, rotr64 r (d XOR a))"

fun mix_c :: "quad \<Rightarrow> quad" where
  "mix_c (a, b, c, d) = (a, b, add64 c d, d)"

fun mix_b :: "nat \<Rightarrow> quad \<Rightarrow> quad" where
  "mix_b r (a, b, c, d) = (a, rotr64 r (b XOR c), c, d)"

definition blake2b_G :: "int \<Rightarrow> int \<Rightarrow> quad \<Rightarrow> quad" where
  "blake2b_G x y q =
     mix_b 63 (mix_c (mix_d 16 (mix_a y (mix_b 24 (mix_c (mix_d 32 (mix_a x q)))))))"

fun put4 :: "nat \<Rightarrow> nat \<Rightarrow> nat \<Rightarrow> nat \<Rightarrow> quad \<Rightarrow> int list \<Rightarrow> int list" where
  "put4 a b c d (va, vb, vc, vd) v = v[a := va, b := vb, c := vc, d := vd]"

definition G_at :: "nat \<Rightarrow> nat \<Rightarrow> nat \<Rightarrow> nat \<Rightarrow> int \<Rightarrow> int \<Rightarrow> int list \<Rightarrow> int list" where
  "G_at a b c d x y v = put4 a b c d (blake2b_G x y (v ! a, v ! b, v ! c, v ! d)) v"

text \<open>One round: G on the four columns, then on the four diagonals, with the message
  words \<open>m\<close> in the order the permutation \<open>s\<close> gives.\<close>

definition blake2b_round :: "int list \<Rightarrow> nat list \<Rightarrow> int list \<Rightarrow> int list" where
  "blake2b_round m s v =
     G_at 3 4 9 14 (m ! (s ! 14)) (m ! (s ! 15))
    (G_at 2 7 8 13 (m ! (s ! 12)) (m ! (s ! 13))
    (G_at 1 6 11 12 (m ! (s ! 10)) (m ! (s ! 11))
    (G_at 0 5 10 15 (m ! (s ! 8)) (m ! (s ! 9))
    (G_at 3 7 11 15 (m ! (s ! 6)) (m ! (s ! 7))
    (G_at 2 6 10 14 (m ! (s ! 4)) (m ! (s ! 5))
    (G_at 1 5 9 13 (m ! (s ! 2)) (m ! (s ! 3))
    (G_at 0 4 8 12 (m ! (s ! 0)) (m ! (s ! 1)) v)))))))"

text \<open>The compression function F: the chaining value \<open>h\<close> (8 words), the message block
  \<open>m\<close> (16 words), the byte counter \<open>t\<close> and the final-block flag \<open>f\<close>; twelve rounds.\<close>

definition blake2b_init_v :: "int list \<Rightarrow> int \<Rightarrow> bool \<Rightarrow> int list" where
  "blake2b_init_v h t f =
     h @ take 4 blake2b_IV @
     [blake2b_IV ! 4 XOR (t mod 2 ^ 64),
      blake2b_IV ! 5 XOR (t div 2 ^ 64),
      (if f then blake2b_IV ! 6 XOR 0xFFFFFFFFFFFFFFFF else blake2b_IV ! 6),
      blake2b_IV ! 7]"

definition blake2b_finish :: "int list \<Rightarrow> int list \<Rightarrow> int list" where
  "blake2b_finish h v = map2 (XOR) h (map2 (XOR) (take 8 v) (drop 8 v))"

definition blake2b_F :: "int list \<Rightarrow> int list \<Rightarrow> int \<Rightarrow> bool \<Rightarrow> int list" where
  "blake2b_F h m t f =
     blake2b_finish h
       (fold (blake2b_round m) (blake2b_SIGMA @ take 2 blake2b_SIGMA) (blake2b_init_v h t f))"

text \<open>Bytes to little-endian words and back.\<close>

fun le_word :: "byte list \<Rightarrow> int" where
  "le_word [] = 0"
| "le_word (b # bs) = uint b + 256 * le_word bs"

fun block_words :: "nat \<Rightarrow> byte list \<Rightarrow> int list" where
  "block_words 0 bs = []"
| "block_words (Suc n) bs = le_word (take 8 bs) # block_words n (drop 8 bs)"

fun word_bytes :: "nat \<Rightarrow> int \<Rightarrow> byte list" where
  "word_bytes 0 w = []"
| "word_bytes (Suc n) w = word_of_int (w mod 256) # word_bytes n (w div 256)"

text \<open>The blocks of the input: every block but the last is compressed with the counter
  advanced by 128; the last block (the only one that may be short, or empty for an empty
  input) is padded with zero bytes and compressed with the final flag.\<close>

function blake2b_blocks :: "int list \<Rightarrow> int \<Rightarrow> byte list \<Rightarrow> int list" where
  "blake2b_blocks h t d =
     (if 128 < length d
      then blake2b_blocks (blake2b_F h (block_words 16 (take 128 d)) (t + 128) False)
             (t + 128) (drop 128 d)
      else blake2b_F h (block_words 16 (d @ replicate (128 - length d) 0))
             (t + int (length d)) True)"
  by pat_completeness auto
termination
  by (relation "measure (\<lambda>(h, t, d). length d)") auto

text \<open>
  Modelled from the spec: \<^verbatim>\<open>crypto.Blake2B256\<close> is not in the source at hand. The spec
  names it as "the underlying 32-byte digest function (Blake2b-256)" and has
  \<open>hashLevel\<close> apply it "to the concatenation of left and right". It is Blake2b of
  RFC 7693 with a 32-byte digest and no key (parameter word \<open>0x01010020\<close>), over the
  concatenation of its arguments.
\<close>

definition Blake2B256 :: "byte list list \<Rightarrow> Hash" where
  "Blake2B256 ds =
     concat (map (word_bytes 8)
       (take 4 (blake2b_blocks ((blake2b_IV ! 0 XOR 0x01010020) # tl blake2b_IV) 0 (concat ds))))"

text \<open>
  Modelled from the spec: \<^verbatim>\<open>crypto.Hash.Bytes\<close> and \<^verbatim>\<open>crypto.Hash.Decode\<close> are not in the
  source at hand. A digest is "32 bytes each" on the wire: \<open>Bytes\<close> gives the bytes of
  the digest, and \<open>Hash_Decode\<close> reads exactly 32 bytes, failing on a shorter input.
\<close>

definition Bytes :: "Hash \<Rightarrow> byte list" where
  "Bytes h = h"

definition Hash_Decode :: "Reader \<Rightarrow> (Hash \<times> Reader) result" where
  "Hash_Decode r = ReadFull r (replicate 32 0)"

section \<open>Constants\<close>

definition MerkleTreeHeight :: nat where
  "MerkleTreeHeight = 8"

definition MerkleProofLen :: nat where
  "MerkleProofLen = 8 * 32"

definition SubsectorSize :: nat where
  "SubsectorSize = 4096"

definition SubsectorProofLevel :: nat where
  "SubsectorProofLevel = 8"

text \<open>
  \<^verbatim>\<open>Size\<close> (the byte length of a blob) and \<^verbatim>\<open>SectorLen\<close> (the byte length of a sector) are
  constants of the package declared outside the source at hand; they are parameters of
  the functions that use them.
\<close>

definition SubsectorCountBlob :: "nat \<Rightarrow> int" where
  "SubsectorCountBlob Size = int (Size div SubsectorSize)"

definition SubsectorCountSector :: "nat \<Rightarrow> int" where
  "SubsectorCountSector SectorLen = int (SectorLen div SubsectorSize)"

definition MaxUint32 :: int where
  "MaxUint32 = 4294967295"

text \<open>The table \<^verbatim>\<open>precomputes\<close>, entry by entry as the source lists it.\<close>

definition precomputes_entries :: "(Hash \<times> Hash) list" where
  "precomputes_entries =
    [
     ([0x68, 0x6e, 0xde, 0x92, 0x88, 0xc3, 0x91, 0xe7, 0xe0, 0x50, 0x26, 0xe5, 0x6f, 0x2f, 0x91, 0xbf,
      0xd8, 0x79, 0x98, 0x7a, 0x04, 0x0e, 0xa9, 0x84, 0x45, 0xda, 0xbc, 0x76, 0xf5, 0x5b, 0x8e, 0x5f],
      [0x49, 0xe4, 0xb8, 0x0d, 0x5b, 0x7d, 0x8d, 0x93, 0x22, 0x48, 0x25, 0xf2, 0x6c, 0x45, 0x98, 0x7e,
       0x10, 0x7b, 0xbf, 0x2f, 0x87, 0x1d, 0x4e, 0x56, 0x36, 0xac, 0x55, 0x0f, 0xf1, 0x25, 0xe0, 0x82]),
     ([0x49, 0xe4, 0xb8, 0x0d, 0x5b, 0x7d, 0x8d, 0x93, 0x22, 0x48, 0x25, 0xf2, 0x6c, 0x45, 0x98, 0x7e,
      0x10, 0x7b, 0xbf, 0x2f, 0x87, 0x1d, 0x4e, 0x56, 0x36, 0xac, 0x55, 0x0f, 0xf1, 0x25, 0xe0, 0x82],
      [0xb7, 0x95, 0x51, 0x37, 0x10, 0x7e, 0x8c, 0x87, 0x98, 0x94, 0xa9, 0x47, 0xa2, 0x35, 0xec, 0xd2,
       0xa4, 0x22, 0x5a, 0x6c, 0x82, 0x12, 0x97, 0x6e, 0x97, 0x6c, 0x50, 0x31, 0x9b, 0x59, 0x31, 0xb3]),
     ([0xb7, 0x95, 0x51, 0x37, 0x10, 0x7e, 0x8c, 0x87, 0x98, 0x94, 0xa9, 0x47, 0xa2, 0x35, 0xec, 0xd2,
      0xa4, 0x22, 0x5a, 0x6c, 0x82, 0x12, 0x97, 0x6e, 0x97, 0x6c, 0x50, 0x31, 0x9b, 0x59, 0x31, 0xb3],
      [0x47, 0x19, 0x5c, 0x0c, 0xa9, 0x4e, 0x02, 0x20, 0xcd, 0x01, 0xbe, 0x88, 0x32, 0x00, 0xfd, 0xbf,
       0x71, 0x48, 0x13, 0x64, 0x94, 0x2b, 0xa1, 0xe8, 0xd3, 0xef, 0x4c, 0x9a, 0x3d, 0xc4, 0xb6, 0xa5]),
     ([0x47, 0x19, 0x5c, 0x0c, 0xa9, 0x4e, 0x02, 0x20, 0xcd, 0x01, 0xbe, 0x88, 0x32, 0x00, 0xfd, 0xbf,
      0x71, 0x48, 0x13, 0x64, 0x94, 0x2b, 0xa1, 0xe8, 0xd3, 0xef, 0x4c, 0x9a, 0x3d, 0xc4, 0xb6, 0xa5],
      [0x53, 0x2a, 0x12, 0xf0, 0x9f, 0xeb, 0xf8, 0x52, 0x14, 0x19, 0x95, 0x99, 0x73, 0xad, 0x53, 0x46,
       0x94, 0x4c, 0x2b, 0x22, 0xbf, 0x76, 0x4d, 0x0e, 0x1a, 0x34, 0x25, 0x5b, 0x65, 0x64, 0xfe, 0x4b]),
     ([0x53, 0x2a, 0x12, 0xf0, 0x9f, 0xeb, 0xf8, 0x52, 0x14, 0x19, 0x95, 0x99, 0x73, 0xad, 0x53, 0x46,
      0x94, 0x4c, 0x2b, 0x22, 0xbf, 0x76, 0x4d, 0x0e, 0x1a, 0x34, 0x25, 0x5b, 0x65, 0x64, 0xfe, 0x4b],
      [0xff, 0xe2, 0xcf, 0x7e, 0xcd, 0x1b, 0x99, 0x32, 0x35, 0x74, 0x6b, 0xe2, 0x1e, 0x91, 0xc8, 0xe6,
       0x1a, 0x1e, 0x22, 0xda, 0xce, 0x98, 0x50, 0x91, 0x25, 0x85, 0x41, 0x65, 0x01, 0xe9, 0x84, 0x47]),
     ([0xff, 0xe2, 0xcf, 0x7e, 0xcd, 0x1b, 0x99, 0x32, 0x35, 0x74, 0x6b, 0xe2, 0x1e, 0x91, 0xc8, 0xe6,
      0x1a, 0x1e, 0x22, 0xda, 0xce, 0x98, 0x50, 0x91, 0x25, 0x85, 0x41, 0x65, 0x01, 0xe9, 0x84, 0x47],
      [0x60, 0x52, 0x2e, 0x01, 0x34, 0x1f, 0xe9, 0x62, 0x54, 0x66, 0x8b, 0xa1, 0xbc, 0x2c, 0x79, 0xdd,
       0x6f, 0xc6, 0x6b, 0x37, 0x84, 0xc2, 0xeb, 0x39, 0xd4, 0xf0, 0x73, 0x19, 0xc6, 0x23, 0x26, 0x57]),
     ([0x60, 0x52, 0x2e, 0x01, 0x34, 0x1f, 0xe9, 0x62, 0x54, 0x66, 0x8b, 0xa1, 0xbc, 0x2c, 0x79, 0xdd,
      0x6f, 0xc6, 0x6b, 0x37, 0x84, 0xc2, 0xeb, 0x39, 0xd4, 0xf0, 0x73, 0x19, 0xc6, 0x23, 0x26, 0x57],
      [0xae, 0x01, 0x82, 0xab, 0x78, 0x03, 0xfc, 0x44, 0xd0, 0x85, 0xc1, 0xc7, 0x34, 0xa5, 0x52, 0xff,
       0xfd, 0xb0, 0xf7, 0x44, 0x17, 0x9f, 0x0d, 0x95, 0xbd, 0x60, 0xdd, 0x6f, 0x8f, 0x18, 0x18, 0xaf]),
     ([0xae, 0x01, 0x82, 0xab, 0x78, 0x03, 0xfc, 0x44, 0xd0, 0x85, 0xc1, 0xc7, 0x34, 0xa5, 0x52, 0xff,
      0xfd, 0xb0, 0xf7, 0x44, 0x17, 0x9f, 0x0d, 0x95, 0xbd, 0x60, 0xdd, 0x6f, 0x8f, 0x18, 0x18, 0xaf],
      [0xf3, 0x4c, 0x7d, 0x70, 0xb6, 0x52, 0xeb, 0xa4, 0x8e, 0x02, 0xb4, 0x71, 0x7e, 0x1f, 0x0a, 0x2b,
       0xe9, 0x33, 0x7b, 0x07, 0x51, 0xcc, 0xf7, 0xbf, 0x36, 0x44, 0x67, 0x4c, 0xbe, 0x64, 0x23, 0xd5]),
     ([0xf3, 0x4c, 0x7d, 0x70, 0xb6, 0x52, 0xeb, 0xa4, 0x8e, 0x02, 0xb4, 0x71, 0x7e, 0x1f, 0x0a, 0x2b,
      0xe9, 0x33, 0x7b, 0x07, 0x51, 0xcc, 0xf7, 0xbf, 0x36, 0x44, 0x67, 0x4c, 0xbe, 0x64, 0x23, 0xd5],
      [0x32, 0x00, 0xb9, 0x9b, 0xfc, 0xd8, 0x2c, 0x64, 0xc8, 0x18, 0xb1, 0xa2, 0xb2, 0x6e, 0x14, 0xbf,
       0x78, 0x4f, 0xe9, 0x18, 0x8a, 0x55, 0x9b, 0x6b, 0x38, 0xa6, 0xdd, 0xa4, 0xfb, 0x55, 0x31, 0x47]),
     ([0x32, 0x00, 0xb9, 0x9b, 0xfc, 0xd8, 0x2c, 0x64, 0xc8, 0x18, 0xb1, 0xa2, 0xb2, 0x6e, 0x14, 0xbf,
      0x78, 0x4f, 0xe9, 0x18, 0x8a, 0x55, 0x9b, 0x6b, 0x38, 0xa6, 0xdd, 0xa4, 0xfb, 0x55, 0x31, 0x47],
      [0xb8, 0x6b, 0xe3, 0xa8, 0xb2, 0x88, 0xb0, 0xef, 0x0b, 0x7e, 0xe5, 0xa9, 0x85, 0x2d, 0x11, 0x81,
       0x67, 0xa5, 0x0c, 0x84, 0x71, 0xbf, 0xb9, 0xfb, 0x8f, 0x0c, 0x79, 0x92, 0xf4, 0x52, 0xc7, 0x9c]),
     ([0xb8, 0x6b, 0xe3, 0xa8, 0xb2, 0x88, 0xb0, 0xef, 0x0b, 0x7e, 0xe5, 0xa9, 0x85, 0x2d, 0x11, 0x81,
      0x67, 0xa5, 0x0c, 0x84, 0x71, 0xbf, 0xb9, 0xfb, 0x8f, 0x0c, 0x79, 0x92, 0xf4, 0x52, 0xc7, 0x9c],
      [0xaa, 0xbd, 0xcb, 0xb2, 0x3b, 0xfc, 0xea, 0xfe, 0x71, 0xf3, 0x83, 0x4a, 0x17, 0xec, 0x1d, 0x24,
       0xbd, 0x4e, 0xf2, 0xda, 0xed, 0x68, 0xd2, 0xcc, 0xc3, 0xc2, 0x98, 0x9f, 0xd0, 0x92, 0xe3, 0x53]),
     ([0xaa, 0xbd, 0xcb, 0xb2, 0x3b, 0xfc, 0xea, 0xfe, 0x71, 0xf3, 0x83, 0x4a, 0x17, 0xec, 0x1d, 0x24,
      0xbd, 0x4e, 0xf2, 0xda, 0xed, 0x68, 0xd2, 0xcc, 0xc3, 0xc2, 0x98, 0x9f, 0xd0, 0x92, 0xe3, 0x53],
      [0x7d, 0x1e, 0x84, 0xe6, 0x2d, 0x7e, 0xc9, 0xf6, 0xbc, 0x3f, 0x88, 0x66, 0x75, 0x73, 0x3d, 0xa0,
       0x6d, 0xaf, 0x02, 0x77, 0xad, 0x8f, 0xfc, 0xf7, 0xc5, 0x39, 0x93, 0x8c, 0xa5, 0xee, 0x9c, 0xf2])
    ]"

definition precomputes :: "Hash \<rightharpoonup> Hash" where
  "precomputes = map_of precomputes_entries"

definition zero4kSector :: "byte list" where
  "zero4kSector = replicate 4096 0"

definition zero4kSectorHash :: Hash where
  "zero4kSectorHash =
    [0x68, 0x6e, 0xde, 0x92, 0x88, 0xc3, 0x91, 0xe7, 0xe0, 0x50, 0x26, 0xe5, 0x6f, 0x2f, 0x91, 0xbf,
     0xd8, 0x79, 0x98, 0x7a, 0x04, 0x0e, 0xa9, 0x84, 0x45, 0xda, 0xbc, 0x76, 0xf5, 0x5b, 0x8e, 0x5f]"

definition EmptyBlobMerkleRoot :: Hash where
  "EmptyBlobMerkleRoot =
    [0x7d, 0x1e, 0x84, 0xe6, 0x2d, 0x7e, 0xc9, 0xf6, 0xbc, 0x3f, 0x88, 0x66, 0x75, 0x73, 0x3d, 0xa0,
     0x6d, 0xaf, 0x02, 0x77, 0xad, 0x8f, 0xfc, 0xf7, 0xc5, 0x39, 0x93, 0x8c, 0xa5, 0xee, 0x9c, 0xf2]"

definition EmptyBlobBaseHash :: Hash where
  "EmptyBlobBaseHash =
    [0x53, 0x2a, 0x12, 0xf0, 0x9f, 0xeb, 0xf8, 0x52, 0x14, 0x19, 0x95, 0x99, 0x73, 0xad, 0x53, 0x46,
     0x94, 0x4c, 0x2b, 0x22, 0xbf, 0x76, 0x4d, 0x0e, 0x1a, 0x34, 0x25, 0x5b, 0x65, 0x64, 0xfe, 0x4b]"

definition zero_Hash :: Hash where
  "zero_Hash = replicate 32 0"

definition ZeroMerkleBase :: MerkleBase where
  "ZeroMerkleBase = replicate 256 zero_Hash"

section \<open>Digest algebra\<close>

definition hashLeaf :: "byte list \<Rightarrow> Hash" where
  "hashLeaf inp = (if zero4kSector = inp then zero4kSectorHash else Blake2B256 [inp])"

definition hashLevel :: "Hash \<Rightarrow> Hash \<Rightarrow> Hash" where
  "hashLevel left right =
     (case precomputes left of
        Some precompRes \<Rightarrow> if left = right then precompRes else Blake2B256 [left, right]
      | None \<Rightarrow> Blake2B256 [left, right])"

section \<open>Tree builder\<close>

text \<open>\<^verbatim>\<open>bits.OnesCount64\<close>: the number of one bits of a 64-bit word.\<close>

function ones_count :: "nat \<Rightarrow> nat" where
  "ones_count n = (if n = 0 then 0 else n mod 2 + ones_count (n div 2))"
  by pat_completeness auto
termination
  by (relation "measure (\<lambda>n. n)") auto

definition OnesCount64 :: "64 word \<Rightarrow> nat" where
  "OnesCount64 x = ones_count (unat x)"

text \<open>
  The inner loop of \<^verbatim>\<open>newMerkleTreeFromHashedLeaves\<close>:
  \<^verbatim>\<open>for i := 0; i < len(tree[0]); i += 2\<close>, which reads \<^verbatim>\<open>tree[0][i]\<close> and
  \<^verbatim>\<open>tree[0][i+1]\<close>; the second read panics when \<open>i + 1\<close> is out of range.
\<close>

function level_loop :: "Hash list \<Rightarrow> nat \<Rightarrow> Hash list \<Rightarrow> Hash list result" where
  "level_loop t0 i level =
     (if i < length t0 then
        (if i + 1 < length t0
         then level_loop t0 (i + 2) (level @ [hashLevel (t0 ! i) (t0 ! (i + 1))])
         else Panic)
      else Ok level)"
  by pat_completeness auto
termination
  by (relation "measure (\<lambda>(t0, i, level). length t0 - i)") auto

lemma level_loop_length:
  "level_loop t0 i level = Ok out \<Longrightarrow> length out = length level + (length t0 - i) div 2"
proof (induction t0 i level rule: level_loop.induct)
  case (1 t0 i level)
  show ?case
  proof (cases "i < length t0")
    case False
    with "1.prems" show ?thesis by simp
  next
    case True
    with "1.prems" have step: "i + 1 < length t0"
      by (simp split: if_splits)
    with True "1.prems"
    have "level_loop t0 (i + 2) (level @ [hashLevel (t0 ! i) (t0 ! (i + 1))]) = Ok out"
      by simp
    from "1.IH" [OF True step this]
    have len: "length out = Suc (length level) + (length t0 - (i + 2)) div 2"
      by simp
    from step have "(length t0 - i) div 2 = Suc ((length t0 - (i + 2)) div 2)"
      by presburger
    with len show ?thesis by simp
  qed
qed

text \<open>The outer loop: \<^verbatim>\<open>for len(tree[0]) > 1\<close>, which puts each new level in front.\<close>

function build_loop :: "MerkleTree \<Rightarrow> MerkleTree result" where
  "build_loop tree =
     (case tree of
        [] \<Rightarrow> Panic
      | t0 # rest \<Rightarrow>
          if 1 < length t0 then
            (case level_loop t0 0 [] of
               Ok level \<Rightarrow> build_loop (level # tree)
             | Err e \<Rightarrow> Err e
             | Panic \<Rightarrow> Panic)
          else Ok tree)"
  by pat_completeness auto
termination
proof (relation "measure (\<lambda>tree. length (hd tree))")
  show "wf (measure (\<lambda>tree. length (hd tree)))" by simp
next
  fix tree :: MerkleTree and t0 rest level
  assume "tree = t0 # rest" "1 < length t0" "level_loop t0 0 [] = Ok level"
  then show "(level # tree, tree) \<in> measure (\<lambda>tree. length (hd tree))"
    using level_loop_length [of t0 0 "[]" level] by simp
qed

definition newMerkleTreeFromHashedLeaves :: "Hash list \<Rightarrow> MerkleTree result" where
  "newMerkleTreeFromHashedLeaves base =
     (if OnesCount64 (word_of_nat (length base)) \<noteq> 1 then Err ErrBaseNotPowerOfTwo
      else build_loop [base])"

text \<open>
  The read loop of \<^verbatim>\<open>NewMerkleTreeFromReader\<close>:
  \<^verbatim>\<open>for i := 0; i < leafCount; i++\<close>, filling the one buffer \<open>buf\<close> each time.
\<close>

function read_leaves ::
  "Reader \<Rightarrow> byte list \<Rightarrow> int \<Rightarrow> int \<Rightarrow> Hash list \<Rightarrow> (Hash list \<times> Reader) result" where
  "read_leaves r buf i leafCount base =
     (if i < leafCount then
        (case ReadFull r buf of
           Ok (buf', r') \<Rightarrow> read_leaves r' buf' (i + 1) leafCount (base @ [hashLeaf buf'])
         | Err e \<Rightarrow> Err e
         | Panic \<Rightarrow> Panic)
      else Ok (base, r))"
  by pat_completeness auto
termination
  by (relation "measure (\<lambda>(r, buf, i, leafCount, base). nat (leafCount - i))") auto

text \<open>
  The built-in \<^verbatim>\<open>make([]byte, n)\<close>. The Go runtime makes one check, in
  \<^verbatim>\<open>makeslice\<close>, and panics (\<^verbatim>\<open>makeslice: len out of range\<close>) when the length is
  negative or above its allocation limit \<^verbatim>\<open>maxAlloc\<close>; otherwise the slice holds \<open>n\<close>
  zero bytes. The limit is \<open>2 ^ 48\<close> bytes on the 64-bit platforms (a heap address has
  48 bits there); the package compiles only where a Go \<^verbatim>\<open>int\<close> has 64 bits, since it
  compares one with \<^verbatim>\<open>math.MaxUint32\<close>. An allocation that passes the check is taken
  to succeed: a machine that runs out of memory is not part of the model.
\<close>

definition maxAlloc :: int where
  "maxAlloc = 2 ^ 48"

definition make_bytes :: "int \<Rightarrow> byte list result" where
  "make_bytes n = (if n < 0 \<or> maxAlloc < n then Panic else Ok (replicate (nat n) 0))"

text \<open>
  \<^verbatim>\<open>NewMerkleTreeFromReader\<close>. The Go \<^verbatim>\<open>int\<close> arguments are integers (a Go \<^verbatim>\<open>int\<close> is
  taken to have 64 bits, as the comparison with \<^verbatim>\<open>math.MaxUint32\<close> needs);
  \<^verbatim>\<open>uint64(leafCount)\<close> is the conversion to a 64-bit word, and \<^verbatim>\<open>make([]byte, leafSize)\<close>
  panics on a length that is negative or above the allocation limit. The result carries
  the reader after the call beside the tree, so that what was consumed can be stated.
\<close>

definition NewMerkleTreeFromReader ::
  "Reader \<Rightarrow> int \<Rightarrow> int \<Rightarrow> (MerkleTree \<times> Reader) result" where
  "NewMerkleTreeFromReader r leafCount leafSize =
     (if leafCount > MaxUint32 then Err ErrLeafCountTooLarge
      else if OnesCount64 (word_of_int leafCount) \<noteq> 1 then Err ErrLeafCountNotPowerOfTwo
      else
        (case make_bytes leafSize of
           Ok buf \<Rightarrow>
             (case read_leaves r buf 0 leafCount [] of
                Ok (base, r') \<Rightarrow>
                  (case newMerkleTreeFromHashedLeaves base of
                     Ok tree \<Rightarrow> Ok (tree, r')
                   | Err e \<Rightarrow> Err e
                   | Panic \<Rightarrow> Panic)
              | Err e \<Rightarrow> Err e
              | Panic \<Rightarrow> Panic)
         | Err e \<Rightarrow> Err e
         | Panic \<Rightarrow> Panic))"

definition Merkleize :: "nat \<Rightarrow> Reader \<Rightarrow> (MerkleTree \<times> Reader) result" where
  "Merkleize Size br = NewMerkleTreeFromReader br (SubsectorCountBlob Size) (int SubsectorSize)"

definition Root :: "MerkleTree \<Rightarrow> Hash result" where
  "Root t = (case t of [] \<Rightarrow> Panic | [] # _ \<Rightarrow> Panic | (h # _) # _ \<Rightarrow> Ok h)"

definition Height :: "MerkleTree \<Rightarrow> int result" where
  "Height t = (if length t = 0 then Panic else Ok (int (length t) - 1))"

definition Level :: "MerkleTree \<Rightarrow> int \<Rightarrow> Hash list result" where
  "Level t i = (if 0 \<le> i \<and> i < int (length t) then Ok (t ! nat i) else Panic)"

definition ProtocolBase :: "MerkleTree \<Rightarrow> MerkleBase result" where
  "ProtocolBase t =
     (case Level t 8 of
        Ok data \<Rightarrow> if length data \<noteq> 256 then Panic else Ok data
      | Err e \<Rightarrow> Err e
      | Panic \<Rightarrow> Panic)"

definition MakeTreeFromBase :: "MerkleBase \<Rightarrow> MerkleTree result" where
  "MakeTreeFromBase base =
     (case newMerkleTreeFromHashedLeaves base of
        Ok tree \<Rightarrow> Ok tree
      | Err e \<Rightarrow> Panic
      | Panic \<Rightarrow> Panic)"

definition HashSector :: "nat \<Rightarrow> byte list \<Rightarrow> Hash result" where
  "HashSector SectorLen sector =
     (case NewMerkleTreeFromReader sector (SubsectorCountSector SectorLen) (int SubsectorSize) of
        Ok (sectorTree, r') \<Rightarrow> Root sectorTree
      | Err e \<Rightarrow> Panic
      | Panic \<Rightarrow> Panic)"

section \<open>Base: wire format and diff\<close>

definition MerkleBase_Encode :: "MerkleBase \<Rightarrow> Writer \<Rightarrow> Writer" where
  "MerkleBase_Encode m w = fold (\<lambda>h w. Write w h) m w"

text \<open>
  \<^verbatim>\<open>MerkleBase.Decode\<close>: 256 calls of \<^verbatim>\<open>r.Read(hash[:])\<close> on the one variable \<open>hash\<close>,
  each followed by \<^verbatim>\<open>res[i] = hash\<close>.
\<close>

function base_decode_loop ::
  "Reader \<Rightarrow> Hash \<Rightarrow> nat \<Rightarrow> MerkleBase \<Rightarrow> (MerkleBase \<times> Reader) result" where
  "base_decode_loop r hash i res =
     (if i < length res then
        (case Read r hash of
           Ok (hash', r') \<Rightarrow> base_decode_loop r' hash' (i + 1) (res[i := hash'])
         | Err e \<Rightarrow> Err e
         | Panic \<Rightarrow> Panic)
      else Ok (res, r))"
  by pat_completeness auto
termination
  by (relation "measure (\<lambda>(r, hash, i, res). length res - i)") auto

definition MerkleBase_Decode :: "Reader \<Rightarrow> (MerkleBase \<times> Reader) result" where
  "MerkleBase_Decode r = base_decode_loop r zero_Hash 0 ZeroMerkleBase"

function diff_loop :: "MerkleBase \<Rightarrow> MerkleBase \<Rightarrow> nat \<Rightarrow> byte list \<Rightarrow> byte list" where
  "diff_loop m other i out =
     (if i < length m
      then diff_loop m other (i + 1) (if m ! i \<noteq> other ! i then out @ [word_of_nat i] else out)
      else out)"
  by pat_completeness auto
termination
  by (relation "measure (\<lambda>(m, other, i, out). length m - i)") auto

definition DiffWith :: "MerkleBase \<Rightarrow> MerkleBase \<Rightarrow> byte list" where
  "DiffWith m other = (if m = other then [] else diff_loop m other 0 [])"

section \<open>Sector proofs\<close>

text \<open>
  \<^verbatim>\<open>MakeSectorProof\<close>: the loop \<^verbatim>\<open>for i := SubsectorProofLevel; i >= 1; i--\<close>, with the
  position an 8-bit word; \<^verbatim>\<open>tree[i]\<close> and \<^verbatim>\<open>level[pos+1]\<close>, \<^verbatim>\<open>level[pos-1]\<close> panic out of
  range. \<^verbatim>\<open>copy(proof[:], buf.Bytes())\<close> fills the front of the zeroed 256-byte proof.
\<close>

fun proof_loop :: "MerkleTree \<Rightarrow> nat \<Rightarrow> byte \<Rightarrow> byte list \<Rightarrow> byte list result" where
  "proof_loop tree 0 pos buf = Ok buf"
| "proof_loop tree (Suc n) pos buf =
     (if Suc n < length tree then
        (if pos mod 2 = 0 then
           (if unat (pos + 1) < length (tree ! Suc n)
            then proof_loop tree n (pos div 2) (buf @ Bytes (tree ! Suc n ! unat (pos + 1)))
            else Panic)
         else
           (if unat (pos - 1) < length (tree ! Suc n)
            then proof_loop tree n (pos div 2) (buf @ Bytes (tree ! Suc n ! unat (pos - 1)))
            else Panic))
      else Panic)"

definition MakeSectorProof :: "MerkleTree \<Rightarrow> byte \<Rightarrow> MerkleProof result" where
  "MakeSectorProof tree sectorID =
     (case proof_loop tree SubsectorProofLevel sectorID [] of
        Ok buf \<Rightarrow> Ok (take MerkleProofLen buf @ replicate (MerkleProofLen - length buf) 0)
      | Err e \<Rightarrow> Err e
      | Panic \<Rightarrow> Panic)"

text \<open>
  \<^verbatim>\<open>VerifySectorProof\<close>: the loop \<^verbatim>\<open>for i := 0; i < MerkleTreeHeight; i++\<close> over the reader
  on the proof; a failed read returns false.
\<close>

function verify_loop :: "nat \<Rightarrow> Reader \<Rightarrow> Hash \<Rightarrow> byte \<Rightarrow> Hash \<Rightarrow> Hash option" where
  "verify_loop i pRdr proofHash pos currHash =
     (if i < MerkleTreeHeight then
        (case ReadFull pRdr proofHash of
           Ok (proofHash', pRdr') \<Rightarrow>
             verify_loop (i + 1) pRdr' proofHash' (pos div 2)
               (if pos mod 2 = 0 then hashLevel currHash proofHash'
                else hashLevel proofHash' currHash)
         | Err e \<Rightarrow> None
         | Panic \<Rightarrow> None)
      else Some currHash)"
  by pat_completeness auto
termination
  by (relation "measure (\<lambda>(i, pRdr, proofHash, pos, currHash). MerkleTreeHeight - i)") auto

definition VerifySectorProof ::
  "nat \<Rightarrow> byte list \<Rightarrow> byte \<Rightarrow> Hash \<Rightarrow> MerkleProof \<Rightarrow> bool result" where
  "VerifySectorProof SectorLen sector sectorID merkleRoot proof =
     (case HashSector SectorLen sector of
        Ok currHash \<Rightarrow>
          (case verify_loop 0 proof zero_Hash sectorID currHash of
             None \<Rightarrow> Ok False
           | Some h \<Rightarrow> Ok (h = merkleRoot))
      | Err e \<Rightarrow> Err e
      | Panic \<Rightarrow> Panic)"

section \<open>Tree wire format\<close>

text \<open>
  \<^verbatim>\<open>MerkleTree.Encode\<close>: the height as one byte (\<^verbatim>\<open>uint8(t.Height())\<close>, which panics on
  a tree with no level), then the levels from the last to the first.
\<close>

function encode_loop :: "MerkleTree \<Rightarrow> int \<Rightarrow> Writer \<Rightarrow> Writer" where
  "encode_loop t i w =
     (if 0 \<le> i
      then encode_loop t (i - 1) (fold (\<lambda>node w. Write w (Bytes node)) (t ! nat i) w)
      else w)"
  by pat_completeness auto
termination
  by (relation "measure (\<lambda>(t, i, w). nat (i + 1))") auto

definition MerkleTree_Encode :: "MerkleTree \<Rightarrow> Writer \<Rightarrow> Writer result" where
  "MerkleTree_Encode t w =
     (case Height t of
        Ok height \<Rightarrow> Ok (encode_loop t (int (length t) - 1) (Write w [word_of_int height]))
      | Err e \<Rightarrow> Err e
      | Panic \<Rightarrow> Panic)"

text \<open>
  \<^verbatim>\<open>MerkleTree.Decode\<close>. \<^verbatim>\<open>1 << uint8(height)\<close> is \<open>2 ^ height\<close>: the height is at most
  32 there and a Go \<^verbatim>\<open>int\<close> has 64 bits. The inner loop reads \<open>toRead\<close> digests; the outer loop is
  \<^verbatim>\<open>for { ...; if toRead == 1 { break }; toRead = toRead / 2 }\<close>. It has no other
  exit, so it would not return from \<open>toRead = 0\<close>: the outer loop is a partial function,
  with \<open>None\<close> for not returning.
\<close>

function read_level :: "Reader \<Rightarrow> nat \<Rightarrow> nat \<Rightarrow> Hash list \<Rightarrow> (Hash list \<times> Reader) result" where
  "read_level r i toRead level =
     (if i < toRead then
        (case Hash_Decode r of
           Ok (h, r') \<Rightarrow> read_level r' (i + 1) toRead (level @ [h])
         | Err e \<Rightarrow> Err e
         | Panic \<Rightarrow> Panic)
      else Ok (level, r))"
  by pat_completeness auto
termination
  by (relation "measure (\<lambda>(r, i, toRead, level). toRead - i)") auto

partial_function (option) decode_loop ::
  "Reader \<Rightarrow> nat \<Rightarrow> MerkleTree \<Rightarrow> (MerkleTree \<times> Reader) result option" where
  "decode_loop r toRead tree =
     (case read_level r 0 toRead [] of
        Ok (level, r') \<Rightarrow>
          if toRead = 1 then Some (Ok (level # tree, r'))
          else decode_loop r' (toRead div 2) (level # tree)
      | Err e \<Rightarrow> Some (Err e)
      | Panic \<Rightarrow> Some Panic)"

definition MerkleTree_Decode :: "Reader \<Rightarrow> (MerkleTree \<times> Reader) result option" where
  "MerkleTree_Decode r =
     (case ReadFull r [0] of
        Ok (heightB, r') \<Rightarrow>
          if uint (hd heightB) > 32 then Some (Err ErrTreeTooDeep)
          else decode_loop r' (2 ^ unat (hd heightB)) []
      | Err e \<Rightarrow> Some (Err e)
      | Panic \<Rightarrow> Some Panic)"

section \<open>Definitions used in the proofs\<close>

text \<open>
  \<open>zero_run k h t\<close> compresses \<open>k\<close> all-zero blocks that are not the last block, from
  the chaining value \<open>h\<close> and the counter \<open>t\<close>. \<open>zero_chain\<close> lists the chaining values
  of Blake2b-256 over 4096 zero bytes: the initial one, those after 4, 8, ..., 28 and 31
  blocks, and the one after the final block.
\<close>

fun zero_run :: "nat \<Rightarrow> int list \<Rightarrow> int \<Rightarrow> int list" where
  "zero_run 0 h t = h"
| "zero_run (Suc k) h t = zero_run k (blake2b_F h (replicate 16 0) (t + 128) False) (t + 128)"

definition zero_chain :: "int list list" where
  "zero_chain =
    [[0x6a09e667f2bdc928, 0xbb67ae8584caa73b, 0x3c6ef372fe94f82b, 0xa54ff53a5f1d36f1,
      0x510e527fade682d1, 0x9b05688c2b3e6c1f, 0x1f83d9abfb41bd6b, 0x5be0cd19137e2179],
     [0xf86d1976231aafb9, 0x509dc7d91d4f0454, 0x543e650c21fa1347, 0xd6ef56903d25a782,
      0xa9db2cb908684906, 0x606c8163e5f2b9d6, 0x1dbe12e726b27028, 0x52c4f803083c661b],
     [0x4346b457c7c70a1f, 0xa409670a9665ae86, 0xa10a03a742e37c81, 0x08c6e5ca82a40414,
      0x58c5b66ef314aa9c, 0x12fda8000d080a52, 0x2716b0a505e6a1a5, 0x03f432f68581efb0],
     [0x041ac543005e33c5, 0xbdf59570c045c690, 0x3867358af5f6af9e, 0xdfc9663885120a64,
      0xfbb2f4749987dea3, 0x33cce54e3f61b0fb, 0xbcf653e23dbcfdcf, 0xffffd06b091d6999],
     [0x41a38e8a1b1732fd, 0xa38501e727c8e39c, 0x69e31ab66d61d19f, 0xf170fff7e49e8ae6,
      0xd1a9a6e12a1be620, 0x0c174c5483d100cf, 0x46573931c7165f0a, 0x8db0d8b2da6e5ab0],
     [0xbc8a9bf2b3715984, 0xc3515af478e4cf05, 0x59a600773f17266b, 0x3d883ddc20578847,
      0x08e4799b60b056cc, 0xc254ada287da78a8, 0xb26b5c071803f268, 0x0651a70a15cbf877],
     [0x37b372d0ab36b0f8, 0x0eeba6c31239b539, 0x41e8397332a7330e, 0x9e1b83c39545864e,
      0x734b6948a4e8efcd, 0x80c08236af69708e, 0xbaae16c456fc88ff, 0xc6694253dd6313da],
     [0x0fdfce9b6fff5c8c, 0x95b9c63a57895274, 0x6221cff8aabd05d2, 0x3700a7b583204c1a,
      0xd601c808845007a6, 0x46786083d42580e0, 0xbdce97296dd05782, 0x50172ed9cff6da0f],
     [0x54ce2f90e9d901c2, 0x09467bfb32b7931f, 0x02bde7216ee3131c, 0x51b4b1a8dd6057a2,
      0xb3621fc640381832, 0x23a1f52228985ef6, 0x43373dd680b702f2, 0xc98afacc92284703],
     [0xe791c38892de6e68, 0xbf912f6fe52650e0, 0x84a90e047a9879d8, 0x5f8e5bf576bcda45,
      0x9f431502cee55064, 0x3d121e84bda4ff9d, 0x85ad45892593b945, 0xefc0564a95abda26]]"

text \<open>
  \<open>pairs\<close> is one halving step: \<open>hashLevel\<close> of each two neighbours, left to right.
\<close>
fun pairs :: "Hash list \<Rightarrow> Hash list" where
  "pairs (l # r # xs) = hashLevel l r # pairs xs"
| "pairs [x] = []"
| "pairs [] = []"

text \<open>
  \<open>up_levels k xs\<close> is the tree over the leaves \<open>xs\<close> after \<open>k\<close> halving steps: the levels
  \<open>pairs ^^ k\<close>, ..., \<open>pairs\<close>, \<open>xs\<close>, the most halved one first.
\<close>
fun up_levels :: "nat \<Rightarrow> Hash list \<Rightarrow> MerkleTree" where
  "up_levels 0 xs = [xs]"
| "up_levels (Suc k) xs = up_levels k (pairs xs) @ [xs]"

text \<open>
  \<open>leaf_hashes r n s\<close> is \<open>hashLeaf\<close> of each of the first \<open>n\<close> blocks of \<open>s\<close> bytes of \<open>r\<close>.
\<close>
definition leaf_hashes :: "Reader \<Rightarrow> nat \<Rightarrow> nat \<Rightarrow> Hash list" where
  "leaf_hashes r n s = map (\<lambda>j. hashLeaf (take s (drop (j * s) r))) [0..<n]"

text \<open>
  \<open>zero_hashes\<close> lists the keys of the table in its order, then the value of its last
  entry: 13 digests, the \<open>i\<close>-th being the root of an all-zero tree of height \<open>i\<close>.
\<close>
definition zero_hashes :: "Hash list" where
  "zero_hashes = map fst precomputes_entries @ [snd (last precomputes_entries)]"

text \<open>
  A well-formed tree: it has a level, level \<open>i\<close> holds \<open>2 ^ i\<close> digests, and the digest at
  position \<open>j\<close> of a level is \<open>hashLevel\<close> of the digests at positions \<open>2 * j\<close> and
  \<open>2 * j + 1\<close> of the next level.
\<close>
definition well_formed :: "MerkleTree \<Rightarrow> bool" where
  "well_formed t \<longleftrightarrow>
     t \<noteq> [] \<and>
     list_all (\<lambda>i. length (t ! i) = 2 ^ i) [0..<length t] \<and>
     list_all (\<lambda>i. list_all (\<lambda>j. t ! i ! j = hashLevel (t ! Suc i ! (2 * j)) (t ! Suc i ! (2 * j + 1)))
                      [0..<2 ^ i])
       [0..<length t - 1]"

text \<open>
  \<open>zero_tree b h\<close> is the tree of height \<open>h\<close> all of whose leaves are \<open>zero_hashes ! b\<close>.
\<close>
definition zero_tree :: "nat \<Rightarrow> nat \<Rightarrow> MerkleTree" where
  "zero_tree b h = map (\<lambda>i. replicate (2 ^ i) (zero_hashes ! (b + h - i))) [0..<Suc h]"

text \<open>
  The other child of the same parent, and the siblings met on the way from position \<open>x\<close>
  of level \<open>n\<close> up to level 1.
\<close>
definition sibling :: "nat \<Rightarrow> nat" where
  "sibling x = (if even x then x + 1 else x - 1)"

definition proof_path :: "MerkleTree \<Rightarrow> nat \<Rightarrow> nat \<Rightarrow> Hash list" where
  "proof_path t n x = map (\<lambda>j. t ! (n - j) ! sibling (x div 2 ^ j)) [0..<n]"

text \<open>
  A well-shaped tree: it has a level, level \<open>i\<close> holds \<open>2 ^ i\<close> digests, and every digest
  has 32 bytes. Nothing is asked of the digests' values.
\<close>
definition well_shaped :: "MerkleTree \<Rightarrow> bool" where
  "well_shaped t \<longleftrightarrow>
     t \<noteq> [] \<and>
     list_all (\<lambda>i. length (t ! i) = 2 ^ i) [0..<length t] \<and>
     list_all (list_all hash_ok) t"

text \<open>The bytes of the digests of a level, left to right.\<close>
definition level_bytes :: "Hash list \<Rightarrow> byte list" where
  "level_bytes level = concat (map Bytes level)"

section \<open>The zero-content fast paths\<close>

subsection \<open>Test vectors\<close>

text \<open>The Blake2b-256 digests of the empty input and of the three bytes "abc".\<close>

lemma Blake2B256_empty:
  "Blake2B256 [] =
     [0x0e, 0x57, 0x51, 0xc0, 0x26, 0xe5, 0x43, 0xb2, 0xe8, 0xab, 0x2e, 0xb0, 0x60, 0x99, 0xda, 0xa1,
      0xd1, 0xe5, 0xdf, 0x47, 0x77, 0x8f, 0x77, 0x87, 0xfa, 0xab, 0x45, 0xcd, 0xf1, 0x2f, 0xe3, 0xa8]"
  by code_simp

lemma Blake2B256_abc:
  "Blake2B256 [[0x61, 0x62, 0x63]] =
     [0xbd, 0xdd, 0x81, 0x3c, 0x63, 0x42, 0x39, 0x72, 0x31, 0x71, 0xef, 0x3f, 0xee, 0x98, 0x57, 0x9b,
      0x94, 0x96, 0x4e, 0x3b, 0xb1, 0xcb, 0x3e, 0x42, 0x72, 0x62, 0xc8, 0xc0, 0x68, 0xd5, 0x23, 0x19]"
  by code_simp

subsection \<open>Blake2b-256 of 4096 zero bytes\<close>

lemma block_words_zero: "block_words 16 (replicate 128 0) = replicate 16 0"
  by code_simp

lemma zero_run_add: "zero_run (a + b) h t = zero_run b (zero_run a h t) (t + 128 * int a)"
  by (induction a arbitrary: h t) (simp_all add: algebra_simps)

lemma blake2b_blocks_zeros:
  "0 < n \<Longrightarrow> n \<le> 128 \<Longrightarrow>
   blake2b_blocks h t (replicate (128 * k + n) 0) =
     blake2b_F (zero_run k h t) (replicate 16 0) (t + 128 * int k + int n) True"
proof (induction k arbitrary: h t)
  case 0
  then have "replicate n (0::byte) @ replicate (128 - n) 0 = replicate 128 0"
    by (simp add: replicate_add [symmetric])
  with 0 show ?case
    by (subst blake2b_blocks.simps) (simp add: block_words_zero)
next
  case (Suc k)
  have "128 * Suc k + n = 128 + (128 * k + n)" by simp
  then have split: "replicate (128 * Suc k + n) (0::byte) = replicate 128 0 @ replicate (128 * k + n) 0"
    by (simp only: replicate_add)
  show ?case
    apply (subst blake2b_blocks.simps)
    apply (simp only: split)
    using Suc apply (simp add: block_words_zero algebra_simps)
    done
qed

lemma seg1: "zero_run 4 (zero_chain ! 0) 0 = zero_chain ! 1" by code_simp
lemma seg2: "zero_run 4 (zero_chain ! 1) 512 = zero_chain ! 2" by code_simp
lemma seg3: "zero_run 4 (zero_chain ! 2) 1024 = zero_chain ! 3" by code_simp
lemma seg4: "zero_run 4 (zero_chain ! 3) 1536 = zero_chain ! 4" by code_simp
lemma seg5: "zero_run 4 (zero_chain ! 4) 2048 = zero_chain ! 5" by code_simp
lemma seg6: "zero_run 4 (zero_chain ! 5) 2560 = zero_chain ! 6" by code_simp
lemma seg7: "zero_run 4 (zero_chain ! 6) 3072 = zero_chain ! 7" by code_simp
lemma seg8: "zero_run 3 (zero_chain ! 7) 3584 = zero_chain ! 8" by code_simp
lemma seg9: "blake2b_F (zero_chain ! 8) (replicate 16 0) 4096 True = zero_chain ! 9" by code_simp
lemma seg10: "concat (map (word_bytes 8) (take 4 (zero_chain ! 9))) = zero4kSectorHash" by code_simp
lemma seg0: "(blake2b_IV ! 0 XOR 0x01010020) # tl blake2b_IV = zero_chain ! 0" by code_simp

lemma zero_run_31: "zero_run 31 (zero_chain ! 0) 0 = zero_chain ! 8"
proof -
  have c2: "zero_run 8 (zero_chain ! 0) 0 = zero_chain ! 2"
    using zero_run_add [of 4 4 "zero_chain ! 0" 0] seg1 seg2 by simp
  have c3: "zero_run 12 (zero_chain ! 0) 0 = zero_chain ! 3"
    using zero_run_add [of 8 4 "zero_chain ! 0" 0] c2 seg3 by simp
  have c4: "zero_run 16 (zero_chain ! 0) 0 = zero_chain ! 4"
    using zero_run_add [of 12 4 "zero_chain ! 0" 0] c3 seg4 by simp
  have c5: "zero_run 20 (zero_chain ! 0) 0 = zero_chain ! 5"
    using zero_run_add [of 16 4 "zero_chain ! 0" 0] c4 seg5 by simp
  have c6: "zero_run 24 (zero_chain ! 0) 0 = zero_chain ! 6"
    using zero_run_add [of 20 4 "zero_chain ! 0" 0] c5 seg6 by simp
  have c7: "zero_run 28 (zero_chain ! 0) 0 = zero_chain ! 7"
    using zero_run_add [of 24 4 "zero_chain ! 0" 0] c6 seg7 by simp
  show ?thesis
    using zero_run_add [of 28 3 "zero_chain ! 0" 0] c7 seg8 by simp
qed

lemma Blake2B256_zero4k: "Blake2B256 [replicate 4096 0] = zero4kSectorHash"
proof -
  have "blake2b_blocks (zero_chain ! 0) 0 (replicate (128 * 31 + 128) 0) =
        blake2b_F (zero_run 31 (zero_chain ! 0) 0) (replicate 16 0) (0 + 128 * int 31 + int 128) True"
    by (rule blake2b_blocks_zeros) simp_all
  then have "blake2b_blocks (zero_chain ! 0) 0 (replicate 4096 0) = zero_chain ! 9"
    by (simp add: zero_run_31 seg9)
  then show ?thesis
    by (simp add: Blake2B256_def seg0 seg10)
qed

subsection \<open>The table entries\<close>

lemma entry_0: "(\<lambda>(k, v). Blake2B256 [k, k] = v) (precomputes_entries ! 0)" by code_simp
lemma entry_1: "(\<lambda>(k, v). Blake2B256 [k, k] = v) (precomputes_entries ! 1)" by code_simp
lemma entry_2: "(\<lambda>(k, v). Blake2B256 [k, k] = v) (precomputes_entries ! 2)" by code_simp
lemma entry_3: "(\<lambda>(k, v). Blake2B256 [k, k] = v) (precomputes_entries ! 3)" by code_simp
lemma entry_4: "(\<lambda>(k, v). Blake2B256 [k, k] = v) (precomputes_entries ! 4)" by code_simp
lemma entry_5: "(\<lambda>(k, v). Blake2B256 [k, k] = v) (precomputes_entries ! 5)" by code_simp
lemma entry_6: "(\<lambda>(k, v). Blake2B256 [k, k] = v) (precomputes_entries ! 6)" by code_simp
lemma entry_7: "(\<lambda>(k, v). Blake2B256 [k, k] = v) (precomputes_entries ! 7)" by code_simp
lemma entry_8: "(\<lambda>(k, v). Blake2B256 [k, k] = v) (precomputes_entries ! 8)" by code_simp
lemma entry_9: "(\<lambda>(k, v). Blake2B256 [k, k] = v) (precomputes_entries ! 9)" by code_simp
lemma entry_10: "(\<lambda>(k, v). Blake2B256 [k, k] = v) (precomputes_entries ! 10)" by code_simp
lemma entry_11: "(\<lambda>(k, v). Blake2B256 [k, k] = v) (precomputes_entries ! 11)" by code_simp

lemma length_precomputes_entries: "length precomputes_entries = 12"
  by (simp add: precomputes_entries_def)

lemma precomputes_entries_all:
  "list_all (\<lambda>(k, v). Blake2B256 [k, k] = v) precomputes_entries"
proof -
  have "(\<lambda>(k, v). Blake2B256 [k, k] = v) (precomputes_entries ! n)" if "n < 12" for n
  proof -
    from that consider "n = 0" | "n = 1" | "n = 2" | "n = 3" | "n = 4" | "n = 5"
      | "n = 6" | "n = 7" | "n = 8" | "n = 9" | "n = 10" | "n = 11"
      by atomize_elim presburger
    then show ?thesis
    proof cases
      case 1 then show ?thesis using entry_0 by simp
    next
      case 2 then show ?thesis using entry_1 by simp
    next
      case 3 then show ?thesis using entry_2 by simp
    next
      case 4 then show ?thesis using entry_3 by simp
    next
      case 5 then show ?thesis using entry_4 by simp
    next
      case 6 then show ?thesis using entry_5 by simp
    next
      case 7 then show ?thesis using entry_6 by simp
    next
      case 8 then show ?thesis using entry_7 by simp
    next
      case 9 then show ?thesis using entry_8 by simp
    next
      case 10 then show ?thesis using entry_9 by simp
    next
      case 11 then show ?thesis using entry_10 by simp
    next
      case 12 then show ?thesis using entry_11 by simp
    qed
  qed
  then show ?thesis
    by (simp add: list_all_length length_precomputes_entries)
qed

lemma precomputes_sound: "precomputes k = Some v \<Longrightarrow> Blake2B256 [k, k] = v"
proof -
  assume "precomputes k = Some v"
  then have "(k, v) \<in> set precomputes_entries"
    unfolding precomputes_def by (rule map_of_SomeD)
  with precomputes_entries_all show ?thesis
    by (auto simp: list_all_iff)
qed

lemma hashLeaf_eq_Blake2B256: "hashLeaf inp = Blake2B256 [inp]"
  using Blake2B256_zero4k by (auto simp: hashLeaf_def zero4kSector_def)

lemma hashLevel_eq_Blake2B256: "hashLevel left right = Blake2B256 [left, right]"
  by (auto simp: hashLevel_def dest: precomputes_sound split: option.splits)

lemma precomputes_first_key: "fst (hd precomputes_entries) = zero4kSectorHash"
  by (simp add: precomputes_entries_def zero4kSectorHash_def)

text \<open>
  Claim C1. The zero-content fast paths are transparent: \<open>hashLeaf\<close> returns the
  Blake2b-256 digest of its input (for every input, the all-zero 4096-byte block
  included), and \<open>hashLevel\<close> returns the Blake2b-256 digest of the concatenation of its
  two arguments (the table lookup for equal children included). The table has 12
  entries, each maps a key \<open>k\<close> to the digest of \<open>k\<close> followed by \<open>k\<close>, and its first key
  is the digest of 4096 zero bytes.
\<close>

theorem fast_paths_transparent:
  "hashLeaf inp = Blake2B256 [inp] \<and>
   hashLevel left right = Blake2B256 [left, right] \<and>
   length precomputes_entries = 12 \<and>
   list_all (\<lambda>(k, v). Blake2B256 [k, k] = v) precomputes_entries \<and>
   fst (hd precomputes_entries) = Blake2B256 [replicate 4096 0]"
  using hashLeaf_eq_Blake2B256 hashLevel_eq_Blake2B256 length_precomputes_entries
    precomputes_entries_all precomputes_first_key Blake2B256_zero4k
  by simp

section \<open>Properties of the tree builder\<close>

declare level_loop.simps [simp del] build_loop.simps [simp del] read_leaves.simps [simp del]
  ones_count.simps [simp del]

lemma length_pairs: "length (pairs xs) = length xs div 2"
  by (induction xs rule: pairs.induct) simp_all

lemma pairs_nth:
  "2 * j + 1 < length xs \<Longrightarrow> pairs xs ! j = hashLevel (xs ! (2 * j)) (xs ! (2 * j + 1))"
proof (induction xs arbitrary: j rule: pairs.induct)
  case (1 l r xs)
  then show ?case by (cases j) simp_all
qed simp_all

lemma level_loop_pairs:
  "i \<le> length t0 \<Longrightarrow> even (length t0 - i) \<Longrightarrow>
   level_loop t0 i level = Ok (level @ pairs (drop i t0))"
proof (induction t0 i level rule: level_loop.induct)
  case (1 t0 i level)
  show ?case
  proof (cases "i < length t0")
    case False
    then show ?thesis by (subst level_loop.simps) simp
  next
    case True
    with "1.prems" have step: "i + 1 < length t0"
      by (cases "length t0 - i = 1") auto
    have drop_i: "drop i t0 = t0 ! i # t0 ! (i + 1) # drop (i + 2) t0"
      using True step by (simp add: Cons_nth_drop_Suc)
    have ev: "even (length t0 - (i + 2))"
      using "1.prems" step by simp
    have "level_loop t0 (i + 2) (level @ [hashLevel (t0 ! i) (t0 ! (i + 1))]) =
          Ok ((level @ [hashLevel (t0 ! i) (t0 ! (i + 1))]) @ pairs (drop (i + 2) t0))"
      using "1.IH" [OF True step _ ev] step by simp
    then show ?thesis
      using True step by (subst level_loop.simps) (simp add: drop_i)
  qed
qed

lemma level_loop_even: "even (length t0) \<Longrightarrow> level_loop t0 0 [] = Ok (pairs t0)"
  using level_loop_pairs [of 0 t0 "[]"] by simp

lemma build_loop_pow2:
  "length t0 = 2 ^ k \<Longrightarrow> build_loop (t0 # rest) = Ok (up_levels k t0 @ rest)"
proof (induction k arbitrary: t0 rest)
  case 0
  then show ?case by (subst build_loop.simps) simp
next
  case (Suc k)
  have pos: "(1::nat) \<le> 2 ^ k" by simp
  have len: "length t0 = 2 * 2 ^ k" using Suc.prems by simp
  from len have ev: "even (length t0)" by simp
  from len pos have gt: "1 < length t0" by linarith
  have "length (pairs t0) = 2 ^ k"
    using Suc.prems by (simp add: length_pairs)
  from Suc.IH [OF this, of "t0 # rest"] show ?case
    using gt by (subst build_loop.simps) (simp add: level_loop_even [OF ev])
qed

lemma up_levels_length: "length (up_levels k xs) = Suc k"
  by (induction k arbitrary: xs) simp_all

lemma up_levels_nth: "i \<le> k \<Longrightarrow> up_levels k xs ! i = (pairs ^^ (k - i)) xs"
proof (induction k arbitrary: xs i)
  case 0
  then show ?case by simp
next
  case (Suc k)
  show ?case
  proof (cases "i = Suc k")
    case True
    then show ?thesis
      using up_levels_length [of k "pairs xs"] by (simp add: nth_append)
  next
    case False
    with Suc.prems have le: "i \<le> k" by simp
    then have "Suc k - i = Suc (k - i)" by simp
    with Suc.IH [OF le, of "pairs xs"] le show ?thesis
      by (simp add: nth_append up_levels_length funpow_swap1)
  qed
qed

lemma up_levels_map: "up_levels k xs = map (\<lambda>i. (pairs ^^ (k - i)) xs) [0..<Suc k]"
  by (rule nth_equalityI) (simp_all add: up_levels_length up_levels_nth del: upt_Suc)

lemma ones_count_zero: "ones_count n = 0 \<longleftrightarrow> n = 0"
proof (induction n rule: ones_count.induct)
  case (1 n)
  then show ?case by (subst ones_count.simps) auto
qed

lemma ones_count_pow2: "ones_count n = 1 \<longleftrightarrow> (\<exists>k. n = 2 ^ k)"
proof (induction n rule: ones_count.induct)
  case (1 n)
  show ?case
  proof (cases "n = 0")
    case True
    then show ?thesis by (subst ones_count.simps) simp
  next
    case False
    note IH = "1.IH" [OF False]
    show ?thesis
    proof (cases "even n")
      case True
      then have oc: "ones_count n = ones_count (n div 2)"
        by (subst ones_count.simps) (simp add: False)
      have "(\<exists>k. n div 2 = 2 ^ k) \<longleftrightarrow> (\<exists>k. n = 2 ^ k)"
      proof
        assume "\<exists>k. n div 2 = 2 ^ k"
        then obtain k where "n div 2 = 2 ^ k" ..
        with True have "n = 2 ^ Suc k" by auto
        then show "\<exists>k. n = 2 ^ k" ..
      next
        assume "\<exists>k. n = 2 ^ k"
        then obtain k where k: "n = 2 ^ k" ..
        with True False have "k \<noteq> 0" by (cases k) auto
        then obtain j where "k = Suc j" by (cases k) auto
        with k have "n div 2 = 2 ^ j" by simp
        then show "\<exists>k. n div 2 = 2 ^ k" ..
      qed
      with oc IH show ?thesis by simp
    next
      case odd: False
      then have oc: "ones_count n = Suc (ones_count (n div 2))"
        by (subst ones_count.simps) (simp add: False odd_iff_mod_2_eq_one)
      have "(\<exists>k. n = 2 ^ k) \<longleftrightarrow> n = 1"
      proof
        assume "\<exists>k. n = 2 ^ k"
        then obtain k where k: "n = 2 ^ k" ..
        with odd have "k = 0" by (cases k) auto
        with k show "n = 1" by simp
      next
        assume "n = 1"
        then have "n = 2 ^ 0" by simp
        then show "\<exists>k. n = 2 ^ k" ..
      qed
      moreover have "n div 2 = 0 \<longleftrightarrow> n = 1"
        using odd False by presburger
      ultimately show ?thesis
        using oc by (simp add: ones_count_zero)
    qed
  qed
qed

lemma OnesCount64_of_nat:
  "n < 2 ^ 64 \<Longrightarrow> OnesCount64 (word_of_nat n) = 1 \<longleftrightarrow> (\<exists>k. n = 2 ^ k)"
  using ones_count_pow2 [of n] by (simp add: OnesCount64_def unat_of_nat)

lemma newMerkleTreeFromHashedLeaves_pow2:
  assumes "length base = 2 ^ k" and "k < 64"
  shows "newMerkleTreeFromHashedLeaves base = Ok (up_levels k base)"
proof -
  have "(2::nat) ^ k < 2 ^ 64"
    by (rule power_strict_increasing) (use assms(2) in simp_all)
  then have "length base < 2 ^ 64" using assms(1) by simp
  then have "OnesCount64 (word_of_nat (length base)) = 1"
    using assms(1) OnesCount64_of_nat [of "length base"] by blast
  then show ?thesis
    using build_loop_pow2 [OF assms(1), of "[]"]
    by (simp add: newMerkleTreeFromHashedLeaves_def)
qed

section \<open>Reading the leaves\<close>

lemma map_upt_shift: "map f [0..<Suc n] = f 0 # map (\<lambda>j. f (Suc j)) [0..<n]"
  by (simp add: map_upt_Suc del: upt_Suc)

lemma read_leaves_ok:
  "length buf = s \<Longrightarrow> n * s \<le> length r \<Longrightarrow>
   read_leaves r buf i (i + int n) base =
     Ok (base @ map (\<lambda>j. hashLeaf (take s (drop (j * s) r))) [0..<n], drop (n * s) r)"
proof (induction n arbitrary: r buf i base)
  case 0
  then show ?case by (subst read_leaves.simps) simp
next
  case (Suc n)
  have rf: "ReadFull r buf = Ok (take s r, drop s r)"
  proof (cases "s = 0")
    case True
    with Suc.prems show ?thesis by (simp add: ReadFull_def)
  next
    case False
    with Suc.prems have "s \<le> length r" "r \<noteq> []" by auto
    with False Suc.prems show ?thesis by (auto simp: ReadFull_def)
  qed
  have len': "length (take s r) = s" and rest: "n * s \<le> length (drop s r)"
    using Suc.prems by auto
  have idx: "i + 1 + int n = i + int (Suc n)" by simp
  have "read_leaves (drop s r) (take s r) (i + 1) (i + 1 + int n) (base @ [hashLeaf (take s r)]) =
        Ok ((base @ [hashLeaf (take s r)]) @
            map (\<lambda>j. hashLeaf (take s (drop (j * s) (drop s r)))) [0..<n],
            drop (n * s) (drop s r))"
    by (rule Suc.IH [OF len' rest])
  then show ?case
    apply (subst read_leaves.simps)
    apply (simp add: rf map_upt_shift add_ac del: upt_Suc)
    done
qed

lemma read_leaves_short:
  "length buf = s \<Longrightarrow> length r < n * s \<Longrightarrow>
   \<exists>e. read_leaves r buf i (i + int n) base = Err e"
proof (induction n arbitrary: r buf i base)
  case 0
  then show ?case by simp
next
  case (Suc n)
  then have spos: "0 < s" by (cases s) auto
  show ?case
  proof (cases "r = [] \<or> length r < s")
    case True
    with spos Suc.prems show ?thesis
      by (subst read_leaves.simps) (auto simp: ReadFull_def)
  next
    case False
    with spos Suc.prems have rf: "ReadFull r buf = Ok (take s r, drop s r)"
      by (auto simp: ReadFull_def)
    have len': "length (take s r) = s" using False by auto
    have rest: "length (drop s r) < n * s" using Suc.prems False by auto
    have idx: "i + 1 + int n = i + int (Suc n)" by simp
    from Suc.IH [OF len' rest, of "i + 1" "base @ [hashLeaf (take s r)]"]
    show ?thesis
      by (subst read_leaves.simps) (simp add: rf idx)
  qed
qed

lemma read_leaves_none: "leafCount \<le> i \<Longrightarrow> read_leaves r buf i leafCount base = Ok (base, r)"
  by (subst read_leaves.simps) simp

lemma OnesCount64_of_int:
  assumes "0 < lc" and "lc \<le> MaxUint32"
  shows "OnesCount64 (word_of_int lc) = 1 \<longleftrightarrow> (\<exists>k. lc = 2 ^ k)"
proof -
  have lt: "nat lc < 2 ^ 64" using assms by (simp add: MaxUint32_def)
  have "(word_of_int lc :: 64 word) = word_of_nat (nat lc)"
    using assms(1) by simp
  then have "OnesCount64 (word_of_int lc) = 1 \<longleftrightarrow> (\<exists>k. nat lc = 2 ^ k)"
    using OnesCount64_of_nat [OF lt] by simp
  also have "\<dots> \<longleftrightarrow> (\<exists>k. lc = 2 ^ k)"
  proof
    assume "\<exists>k. nat lc = 2 ^ k"
    then obtain k where "nat lc = 2 ^ k" ..
    then have "lc = 2 ^ k" using assms(1) by (simp add: nat_eq_iff)
    then show "\<exists>k. lc = 2 ^ k" ..
  next
    assume "\<exists>k. lc = 2 ^ k"
    then obtain k where "lc = 2 ^ k" ..
    then have "nat lc = 2 ^ k" by (simp add: nat_power_eq)
    then show "\<exists>k. nat lc = 2 ^ k" ..
  qed
  finally show ?thesis .
qed

lemma OnesCount64_zero: "OnesCount64 (word_of_nat 0) = 0"
  by (simp add: OnesCount64_def ones_count_zero)

lemma pow2_le_MaxUint32: "(2::int) ^ k \<le> MaxUint32 \<Longrightarrow> k < 32"
proof (rule ccontr)
  assume le: "(2::int) ^ k \<le> MaxUint32" and "\<not> k < 32"
  then have "32 \<le> k" by simp
  then have "(2::int) ^ 32 \<le> 2 ^ k" by (rule power_increasing) simp
  with le show False by (simp add: MaxUint32_def)
qed

lemma length_leaf_hashes: "length (leaf_hashes r n s) = n"
  by (simp add: leaf_hashes_def)

lemma make_bytes_ok:
  "0 \<le> n \<Longrightarrow> n \<le> maxAlloc \<Longrightarrow> make_bytes n = Ok (replicate (nat n) 0)"
  by (simp add: make_bytes_def)

lemma make_bytes_panic:
  "n < 0 \<or> maxAlloc < n \<Longrightarrow> make_bytes n = Panic"
  by (simp add: make_bytes_def)

lemma SubsectorSize_le_maxAlloc [simp]: "4096 \<le> maxAlloc"
  by (simp add: maxAlloc_def)

lemma NewMerkleTreeFromReader_ok:
  assumes "leafCount = 2 ^ k" and "leafCount \<le> MaxUint32" and "0 \<le> leafSize"
    and "leafCount * leafSize \<le> int (length r)" and "leafSize \<le> maxAlloc"
  shows "NewMerkleTreeFromReader r leafCount leafSize =
           Ok (up_levels k (leaf_hashes r (2 ^ k) (nat leafSize)),
               drop (2 ^ k * nat leafSize) r)"
proof -
  have k32: "k < 32" using assms(1,2) pow2_le_MaxUint32 by simp
  have pos: "0 < leafCount" using assms(1) by simp
  have oc: "OnesCount64 (word_of_int leafCount) = 1"
    using OnesCount64_of_int [OF pos assms(2)] assms(1) by blast
  have lc: "leafCount = 0 + int (2 ^ k)" using assms(1) by simp
  have "int (2 ^ k * nat leafSize) = leafCount * leafSize"
    using assms(1,3) by simp
  with assms(4) have enough: "2 ^ k * nat leafSize \<le> length r" by linarith
  have rl: "read_leaves r (replicate (nat leafSize) 0) 0 leafCount [] =
              Ok (leaf_hashes r (2 ^ k) (nat leafSize), drop (2 ^ k * nat leafSize) r)"
    unfolding lc leaf_hashes_def
    using read_leaves_ok [of "replicate (nat leafSize) 0" "nat leafSize" "2 ^ k" r 0 "[]"] enough
    by simp
  have tree: "newMerkleTreeFromHashedLeaves (leaf_hashes r (2 ^ k) (nat leafSize)) =
                Ok (up_levels k (leaf_hashes r (2 ^ k) (nat leafSize)))"
    by (rule newMerkleTreeFromHashedLeaves_pow2) (use k32 in \<open>simp_all add: length_leaf_hashes\<close>)
  show ?thesis
    using assms(2) oc rl tree make_bytes_ok [OF assms(3,5)]
    by (simp add: NewMerkleTreeFromReader_def)
qed

lemma NewMerkleTreeFromReader_short:
  assumes "leafCount = 2 ^ k" and "leafCount \<le> MaxUint32" and "0 \<le> leafSize"
    and "int (length r) < leafCount * leafSize" and "leafSize \<le> maxAlloc"
  shows "\<exists>e. NewMerkleTreeFromReader r leafCount leafSize = Err e"
proof -
  have pos: "0 < leafCount" using assms(1) by simp
  have oc: "OnesCount64 (word_of_int leafCount) = 1"
    using OnesCount64_of_int [OF pos assms(2)] assms(1) by blast
  have lc: "leafCount = 0 + int (2 ^ k)" using assms(1) by simp
  have "int (2 ^ k * nat leafSize) = leafCount * leafSize"
    using assms(1,3) by simp
  with assms(4) have short: "length r < 2 ^ k * nat leafSize" by linarith
  obtain e where "read_leaves r (replicate (nat leafSize) 0) 0 leafCount [] = Err e"
    unfolding lc
    using read_leaves_short [of "replicate (nat leafSize) 0" "nat leafSize" r "2 ^ k" 0 "[]"] short
    by auto
  then show ?thesis
    using assms(2) oc make_bytes_ok [OF assms(3,5)]
    by (simp add: NewMerkleTreeFromReader_def)
qed

lemma NewMerkleTreeFromReader_not_pow2:
  assumes "\<not> (\<exists>k. leafCount = 2 ^ k)" and "leafCount \<le> MaxUint32" and "0 \<le> leafSize"
    and "leafSize \<le> maxAlloc"
  shows "\<exists>e. NewMerkleTreeFromReader r leafCount leafSize = Err e"
proof (cases "OnesCount64 (word_of_int leafCount) = 1")
  case False
  with assms(2) show ?thesis by (simp add: NewMerkleTreeFromReader_def)
next
  case True
  have "leafCount \<le> 0"
  proof (rule ccontr)
    assume "\<not> leafCount \<le> 0"
    then have "0 < leafCount" by simp
    from OnesCount64_of_int [OF this assms(2)] True assms(1) show False by simp
  qed
  then have "read_leaves r (replicate (nat leafSize) 0) 0 leafCount [] = Ok ([], r)"
    by (rule read_leaves_none)
  moreover have "newMerkleTreeFromHashedLeaves [] = Err ErrBaseNotPowerOfTwo"
    using OnesCount64_zero by (simp add: newMerkleTreeFromHashedLeaves_def)
  ultimately show ?thesis
    using assms(2) True make_bytes_ok [OF assms(3,4)]
    by (simp add: NewMerkleTreeFromReader_def)
qed

lemma NewMerkleTreeFromReader_too_large:
  "MaxUint32 < leafCount \<Longrightarrow> NewMerkleTreeFromReader r leafCount leafSize = Err ErrLeafCountTooLarge"
  by (simp add: NewMerkleTreeFromReader_def)

lemma NewMerkleTreeFromReader_panics:
  assumes "leafCount = 2 ^ k" and "leafCount \<le> MaxUint32"
    and "leafSize < 0 \<or> maxAlloc < leafSize"
  shows "NewMerkleTreeFromReader r leafCount leafSize = Panic"
proof -
  have pos: "0 < leafCount" using assms(1) by simp
  have oc: "OnesCount64 (word_of_int leafCount) = 1"
    using OnesCount64_of_int [OF pos assms(2)] assms(1) by blast
  show ?thesis
    using assms(2) oc make_bytes_panic [OF assms(3)]
    by (simp add: NewMerkleTreeFromReader_def)
qed

section \<open>All-zero content and tree construction\<close>

lemma zero_hashes_0: "zero_hashes ! 0 = zero4kSectorHash"
  by code_simp

lemma zero_hashes_4: "zero_hashes ! 4 = EmptyBlobBaseHash"
  by code_simp

lemma zero_hashes_12: "zero_hashes ! 12 = EmptyBlobMerkleRoot"
  by code_simp

lemma hashLevel_zero_hashes_all:
  "list_all (\<lambda>i. hashLevel (zero_hashes ! i) (zero_hashes ! i) = zero_hashes ! Suc i) [0..<12]"
  by code_simp

lemma hashLevel_zero_hashes:
  "i < 12 \<Longrightarrow> hashLevel (zero_hashes ! i) (zero_hashes ! i) = zero_hashes ! Suc i"
  using hashLevel_zero_hashes_all by (simp add: list_all_iff)

lemma hashLeaf_zero: "hashLeaf (replicate 4096 0) = zero_hashes ! 0"
  by (simp add: hashLeaf_def zero4kSector_def zero_hashes_0)

lemma pairs_replicate: "pairs (replicate (2 * n) h) = replicate n (hashLevel h h)"
  by (induction n) simp_all

lemma funpow_pairs_zero:
  "i + k \<le> 12 \<Longrightarrow>
   (pairs ^^ k) (replicate (2 ^ k * n) (zero_hashes ! i)) = replicate n (zero_hashes ! (i + k))"
proof (induction k arbitrary: i)
  case 0
  then show ?case by simp
next
  case (Suc k)
  have "2 ^ Suc k * n = 2 * (2 ^ k * n)" by simp
  then have "pairs (replicate (2 ^ Suc k * n) (zero_hashes ! i)) =
             replicate (2 ^ k * n) (zero_hashes ! Suc i)"
    using Suc.prems by (simp only: pairs_replicate) (simp add: hashLevel_zero_hashes)
  moreover have "Suc i + k \<le> 12" using Suc.prems by simp
  ultimately show ?case
    using Suc.IH [of "Suc i"] by (simp add: funpow_swap1)
qed

lemma leaf_hashes_zero:
  "n * 4096 \<le> m \<Longrightarrow> leaf_hashes (replicate m 0) n 4096 = replicate n (zero_hashes ! 0)"
proof -
  assume le: "n * 4096 \<le> m"
  have "hashLeaf (take 4096 (drop (j * 4096) (replicate m 0))) = zero_hashes ! 0" if "j < n" for j
  proof -
    from that have "Suc j \<le> n" by simp
    then have "Suc j * 4096 \<le> n * 4096" by (rule mult_le_mono1)
    with le have "j * 4096 + 4096 \<le> m" by simp
    then have "4096 \<le> m - j * 4096" by linarith
    then have "take 4096 (drop (j * 4096) (replicate m (0::byte))) = replicate 4096 0"
      by (simp add: min_def)
    then show ?thesis by (simp only: hashLeaf_zero)
  qed
  then show ?thesis
    unfolding leaf_hashes_def by (intro replicate_eqI) auto
qed

text \<open>
  Claim C8 (amended). For every \<open>leafSize\<close> that \<^verbatim>\<open>make([]byte, leafSize)\<close> accepts, that
  is from \<open>0\<close> to the allocation limit \<open>maxAlloc\<close>,
  \<open>NewMerkleTreeFromReader r leafCount leafSize\<close> returns an error if and only if
  \<open>leafCount\<close> is not a power of two, or is not within the 32-bit unsigned range, or
  the reader yields fewer than \<open>leafCount * leafSize\<close> bytes. Otherwise, with
  \<open>leafCount = 2 ^ k\<close>, it consumes exactly \<open>leafCount\<close> blocks of \<open>leafSize\<close> bytes and
  returns the tree whose last level is \<open>hashLeaf\<close> of each block and whose level \<open>i\<close> is
  that level halved \<open>k - i\<close> times with \<open>hashLevel\<close>, down to the one digest of level 0;
  its height is \<open>k\<close>.
\<close>

theorem tree_construction_validation:
  assumes "0 \<le> leafSize" and "leafSize \<le> maxAlloc"
  shows
    "(is_Err (NewMerkleTreeFromReader r leafCount leafSize) \<longleftrightarrow>
        (\<not> (\<exists>j. leafCount = 2 ^ j) \<or> \<not> (0 \<le> leafCount \<and> leafCount \<le> MaxUint32) \<or>
         int (length r) < leafCount * leafSize)) \<and>
     (leafCount = 2 ^ k \<and> leafCount \<le> MaxUint32 \<and> leafCount * leafSize \<le> int (length r) \<longrightarrow>
        NewMerkleTreeFromReader r leafCount leafSize =
          Ok (map (\<lambda>i. (pairs ^^ (k - i)) (leaf_hashes r (2 ^ k) (nat leafSize))) [0..<Suc k],
              drop (2 ^ k * nat leafSize) r) \<and>
        Height (map (\<lambda>i. (pairs ^^ (k - i)) (leaf_hashes r (2 ^ k) (nat leafSize))) [0..<Suc k]) =
          Ok (int k))"
proof (intro conjI impI)
  show "is_Err (NewMerkleTreeFromReader r leafCount leafSize) \<longleftrightarrow>
        (\<not> (\<exists>j. leafCount = 2 ^ j) \<or> \<not> (0 \<le> leafCount \<and> leafCount \<le> MaxUint32) \<or>
         int (length r) < leafCount * leafSize)"
  proof (cases "MaxUint32 < leafCount")
    case True
    then show ?thesis by (simp add: NewMerkleTreeFromReader_too_large)
  next
    case le: False
    show ?thesis
    proof (cases "\<exists>j. leafCount = 2 ^ j")
      case False
      with le NewMerkleTreeFromReader_not_pow2 [of leafCount leafSize r] assms
      show ?thesis by auto
    next
      case True
      then obtain j where j: "leafCount = 2 ^ j" ..
      then have nonneg: "0 \<le> leafCount" by simp
      show ?thesis
      proof (cases "int (length r) < leafCount * leafSize")
        case True
        with j le NewMerkleTreeFromReader_short [of leafCount j leafSize r] assms
        show ?thesis by auto
      next
        case False
        with j le NewMerkleTreeFromReader_ok [of leafCount j leafSize r] assms nonneg
        show ?thesis by auto
      qed
    qed
  qed
next
  assume ok: "leafCount = 2 ^ k \<and> leafCount \<le> MaxUint32 \<and> leafCount * leafSize \<le> int (length r)"
  then have a: "leafCount = 2 ^ k" and b: "leafCount \<le> MaxUint32"
    and c: "leafCount * leafSize \<le> int (length r)"
    by blast+
  have "NewMerkleTreeFromReader r leafCount leafSize =
          Ok (up_levels k (leaf_hashes r (2 ^ k) (nat leafSize)), drop (2 ^ k * nat leafSize) r)"
    by (rule NewMerkleTreeFromReader_ok [OF a b assms(1) c assms(2)])
  then show "NewMerkleTreeFromReader r leafCount leafSize =
          Ok (map (\<lambda>i. (pairs ^^ (k - i)) (leaf_hashes r (2 ^ k) (nat leafSize))) [0..<Suc k],
              drop (2 ^ k * nat leafSize) r)"
    by (simp only: up_levels_map)
  show "Height (map (\<lambda>i. (pairs ^^ (k - i)) (leaf_hashes r (2 ^ k) (nat leafSize))) [0..<Suc k]) =
          Ok (int k)"
    by (simp add: Height_def)
qed

text \<open>The theorem at two all-zero blocks of 4096 bytes.\<close>

theorem tree_construction_validation_witness:
  "\<not> is_Err (NewMerkleTreeFromReader (replicate 8192 0) 2 4096) \<and>
   NewMerkleTreeFromReader (replicate 8192 0) 2 4096 =
     Ok ([[zero_hashes ! 1], [zero_hashes ! 0, zero_hashes ! 0]], []) \<and>
   Height [[zero_hashes ! 1], [zero_hashes ! 0, zero_hashes ! 0]] = Ok 1"
proof -
  have pre: "(2::int) = 2 ^ 1 \<and> 2 \<le> MaxUint32 \<and>
             2 * 4096 \<le> int (length (replicate 8192 (0::byte)))"
    by (simp add: MaxUint32_def)
  have nonneg: "(0::int) \<le> 4096" by simp
  have within: "(4096::int) \<le> maxAlloc" by (simp add: maxAlloc_def)
  have lh: "leaf_hashes (replicate 8192 0) (2 ^ 1) (nat 4096) = [zero_hashes ! 0, zero_hashes ! 0]"
    using leaf_hashes_zero [of 2 8192] by (simp add: numeral_2_eq_2)
  have hl: "hashLevel (zero_hashes ! 0) (zero_hashes ! 0) = zero_hashes ! 1"
    using hashLevel_zero_hashes [of 0] by simp
  have levels: "map (\<lambda>i. (pairs ^^ (1 - i)) [zero_hashes ! 0, zero_hashes ! 0]) [0..<Suc 1] =
                [[zero_hashes ! 1], [zero_hashes ! 0, zero_hashes ! 0]]"
    by (simp add: hl)
  have rest: "drop (2 ^ 1 * nat 4096) (replicate 8192 (0::byte)) = []"
    by simp
  from tree_construction_validation [OF nonneg within, of "replicate 8192 0" 2 1] pre
  have "NewMerkleTreeFromReader (replicate 8192 0) 2 4096 =
          Ok (map (\<lambda>i. (pairs ^^ (1 - i)) (leaf_hashes (replicate 8192 0) (2 ^ 1) (nat 4096)))
                [0..<Suc 1],
              drop (2 ^ 1 * nat 4096) (replicate 8192 0)) \<and>
        Height (map (\<lambda>i. (pairs ^^ (1 - i)) (leaf_hashes (replicate 8192 0) (2 ^ 1) (nat 4096)))
                [0..<Suc 1]) = Ok (int 1)"
    by blast
  then have "NewMerkleTreeFromReader (replicate 8192 0) 2 4096 =
          Ok ([[zero_hashes ! 1], [zero_hashes ! 0, zero_hashes ! 0]], []) \<and>
        Height [[zero_hashes ! 1], [zero_hashes ! 0, zero_hashes ! 0]] = Ok (int 1)"
    by (simp only: lh levels rest)
  then show ?thesis by simp
qed

text \<open>
  Claim C8 as it was stated has no condition on \<open>leafSize\<close>, and the call panics in
  \<^verbatim>\<open>make\<close> on a \<open>leafSize\<close> outside \<open>0 .. maxAlloc\<close> once \<open>leafCount\<close> has passed both
  checks. With one leaf of size \<open>-1\<close> and an empty reader none of the three error
  conditions holds, and it returns neither a tree nor an error. With one leaf of size
  \<open>2 ^ 62\<close> and an empty reader the third condition holds (the reader is too short), and
  it returns no error.
\<close>

theorem tree_construction_make_panics:
  "NewMerkleTreeFromReader [] 1 (- 1) = Panic \<and>
   (1::int) = 2 ^ 0 \<and> (0::int) \<le> 1 \<and> (1::int) \<le> MaxUint32 \<and>
   \<not> int (length ([] :: byte list)) < 1 * (- 1) \<and>
   NewMerkleTreeFromReader [] 1 (2 ^ 62) = Panic \<and>
   \<not> is_Err (NewMerkleTreeFromReader [] 1 (2 ^ 62)) \<and>
   int (length ([] :: byte list)) < 1 * 2 ^ 62"
proof -
  have one: "(1::int) = 2 ^ 0" and le: "(1::int) \<le> MaxUint32"
    by (simp_all add: MaxUint32_def)
  have neg: "NewMerkleTreeFromReader [] 1 (- 1) = Panic"
    by (rule NewMerkleTreeFromReader_panics [OF one le]) simp
  have big: "NewMerkleTreeFromReader [] 1 (2 ^ 62) = Panic"
    by (rule NewMerkleTreeFromReader_panics [OF one le]) (simp add: maxAlloc_def)
  show ?thesis
    using neg big le by simp
qed

section \<open>Well-formed trees and the base\<close>

lemma wf_length: "well_formed t \<Longrightarrow> i < length t \<Longrightarrow> length (t ! i) = 2 ^ i"
  by (simp add: well_formed_def list_all_iff)

lemma wf_parent:
  "well_formed t \<Longrightarrow> Suc i < length t \<Longrightarrow> j < 2 ^ i \<Longrightarrow>
   t ! i ! j = hashLevel (t ! Suc i ! (2 * j)) (t ! Suc i ! (2 * j + 1))"
  by (simp add: well_formed_def list_all_iff)

lemma wf_pairs:
  assumes "well_formed t" and "Suc i < length t"
  shows "pairs (t ! Suc i) = t ! i"
proof (rule nth_equalityI)
  have li: "length (t ! i) = 2 ^ i" and ls: "length (t ! Suc i) = 2 ^ Suc i"
    using assms by (simp_all add: wf_length)
  then show len: "length (pairs (t ! Suc i)) = length (t ! i)"
    by (simp add: length_pairs)
  fix j assume "j < length (pairs (t ! Suc i))"
  with len li have j: "j < 2 ^ i" by simp
  then have "2 * j + 1 < length (t ! Suc i)" using ls by simp
  then have "pairs (t ! Suc i) ! j = hashLevel (t ! Suc i ! (2 * j)) (t ! Suc i ! (2 * j + 1))"
    by (rule pairs_nth)
  with wf_parent [OF assms j] show "pairs (t ! Suc i) ! j = t ! i ! j" by simp
qed

lemma wf_funpow:
  "well_formed t \<Longrightarrow> i + d < length t \<Longrightarrow> (pairs ^^ d) (t ! (i + d)) = t ! i"
proof (induction d)
  case 0
  then show ?case by simp
next
  case (Suc d)
  then have "pairs (t ! Suc (i + d)) = t ! (i + d)"
    by (intro wf_pairs) simp_all
  with Suc show ?case by (simp add: funpow_swap1)
qed

lemma wf_take:
  assumes "well_formed t" and "k < length t"
  shows "up_levels k (t ! k) = take (Suc k) t"
proof (rule nth_equalityI)
  show len: "length (up_levels k (t ! k)) = length (take (Suc k) t)"
    using assms(2) by (simp add: up_levels_length)
  fix i assume "i < length (up_levels k (t ! k))"
  then have i: "i \<le> k" by (simp add: up_levels_length)
  then have "i + (k - i) = k" by simp
  with wf_funpow [OF assms(1), of i "k - i"] assms(2)
  have "(pairs ^^ (k - i)) (t ! k) = t ! i" by simp
  with i show "up_levels k (t ! k) ! i = take (Suc k) t ! i"
    by (simp add: up_levels_nth)
qed

lemma Root_take: "t \<noteq> [] \<Longrightarrow> Root (take (Suc k) t) = Root t"
  by (cases t) (simp_all add: Root_def)

lemma wf_Root: "well_formed t \<Longrightarrow> Root t = Ok (t ! 0 ! 0)"
proof -
  assume wf: "well_formed t"
  then have ne: "t \<noteq> []" by (simp add: well_formed_def)
  then have "length (t ! 0) = 1" using wf_length [OF wf, of 0] by simp
  then obtain h where "t ! 0 = [h]"
    by (cases "t ! 0") (auto simp: length_Suc_conv)
  with ne show ?thesis
    by (cases t) (simp_all add: Root_def)
qed

lemma wf_ProtocolBase:
  assumes "well_formed t" and "8 < length t"
  shows "ProtocolBase t = Ok (t ! 8)"
proof -
  have "length (t ! 8) = 256"
    using wf_length [OF assms] by simp
  with assms(2) show ?thesis
    by (simp add: ProtocolBase_def Level_def)
qed

lemma wf_MakeTreeFromBase:
  assumes "well_formed t" and "8 < length t"
  shows "MakeTreeFromBase (t ! 8) = Ok (take 9 t)"
proof -
  have "length (t ! 8) = 2 ^ 8"
    using wf_length [OF assms] by simp
  then have "newMerkleTreeFromHashedLeaves (t ! 8) = Ok (up_levels 8 (t ! 8))"
    by (rule newMerkleTreeFromHashedLeaves_pow2) simp
  with wf_take [OF assms] show ?thesis
    by (simp add: MakeTreeFromBase_def)
qed

text \<open>
  Claim C5. Base extraction and regrowth round trip: for every well-formed tree \<open>T\<close> of
  height at least 8, \<open>ProtocolBase\<close> returns its base, \<open>MakeTreeFromBase\<close> of that base
  returns a tree, and the root of that tree is the root of \<open>T\<close>.
\<close>

theorem base_regrow_round_trip:
  assumes "well_formed T" and "Height T = Ok h" and "8 \<le> h"
  shows "\<exists>base T' root. ProtocolBase T = Ok base \<and> MakeTreeFromBase base = Ok T' \<and>
           Root T' = Ok root \<and> Root T = Ok root"
proof -
  from assms(2,3) have len: "8 < length T"
    by (auto simp: Height_def split: if_splits)
  from assms(1) have ne: "T \<noteq> []" by (simp add: well_formed_def)
  have "Root (take 9 T) = Root T"
    using Root_take [OF ne, of 8] by simp
  with wf_Root [OF assms(1)] wf_ProtocolBase [OF assms(1) len] wf_MakeTreeFromBase [OF assms(1) len]
  show ?thesis by simp
qed

lemma length_zero_tree: "length (zero_tree b h) = Suc h"
  by (simp add: zero_tree_def)

lemma zero_tree_nth:
  "i \<le> h \<Longrightarrow> zero_tree b h ! i = replicate (2 ^ i) (zero_hashes ! (b + h - i))"
  unfolding zero_tree_def by (subst nth_map) (simp_all del: upt_Suc)

lemma well_formed_zero_tree:
  assumes "b + h \<le> 12"
  shows "well_formed (zero_tree b h)"
proof -
  have ne: "zero_tree b h \<noteq> []"
    using length_zero_tree [of b h] by auto
  have lens: "length (zero_tree b h ! i) = 2 ^ i" if "i < Suc h" for i
    using that by (simp add: zero_tree_nth)
  have par: "zero_tree b h ! i ! j =
             hashLevel (zero_tree b h ! Suc i ! (2 * j)) (zero_tree b h ! Suc i ! (2 * j + 1))"
    if "i < h" and "j < 2 ^ i" for i j
  proof -
    from that(1) assms have "b + h - Suc i < 12" and "Suc (b + h - Suc i) = b + h - i"
      by simp_all
    with hashLevel_zero_hashes [of "b + h - Suc i"]
    have "hashLevel (zero_hashes ! (b + h - Suc i)) (zero_hashes ! (b + h - Suc i)) =
          zero_hashes ! (b + h - i)"
      by simp
    with that show ?thesis
      by (simp add: zero_tree_nth)
  qed
  show ?thesis
    unfolding well_formed_def list_all_iff
    using ne lens par by (simp add: length_zero_tree)
qed

text \<open>The theorem at the all-zero tree of height 8 over 256 empty-sector digests.\<close>

theorem base_regrow_round_trip_witness:
  "well_formed (zero_tree 4 8) \<and> Height (zero_tree 4 8) = Ok 8 \<and>
   ProtocolBase (zero_tree 4 8) = Ok (replicate 256 EmptyBlobBaseHash) \<and>
   Root (zero_tree 4 8) = Ok EmptyBlobMerkleRoot \<and>
   (\<exists>T'. MakeTreeFromBase (replicate 256 EmptyBlobBaseHash) = Ok T' \<and>
      Root T' = Ok EmptyBlobMerkleRoot)"
proof -
  have wf: "well_formed (zero_tree 4 8)"
    by (rule well_formed_zero_tree) simp
  have ht: "Height (zero_tree 4 8) = Ok 8"
    by (simp add: Height_def length_zero_tree)
  have pb: "ProtocolBase (zero_tree 4 8) = Ok (replicate 256 EmptyBlobBaseHash)"
    using wf_ProtocolBase [OF wf] by (simp add: length_zero_tree zero_tree_nth zero_hashes_4)
  have rt: "Root (zero_tree 4 8) = Ok EmptyBlobMerkleRoot"
    using wf_Root [OF wf] by (simp add: zero_tree_nth zero_hashes_12)
  from base_regrow_round_trip [OF wf ht] pb rt
  show ?thesis using wf ht by auto
qed

section \<open>Completeness of sector proofs\<close>

declare verify_loop.simps [simp del]

lemma byte_mod2: "(pos :: byte) mod 2 = 0 \<longleftrightarrow> even (unat pos)"
  by (simp add: word_eq_iff_unsigned [where ?'a = nat] unat_mod_distrib even_iff_mod_2_eq_zero)

lemma byte_div2: "unat ((pos :: byte) div 2) = unat pos div 2"
  by (simp add: unat_div_distrib)

lemma byte_succ: "even (unat (pos :: byte)) \<Longrightarrow> unat (pos + 1) = unat pos + 1"
proof -
  assume ev: "even (unat pos)"
  have "unat pos < 256" using unsigned_less [of pos, where ?'a = nat] by simp
  with ev have "unat pos + 1 < 256" by presburger
  then have "unat pos + unat (1 :: byte) < 2 ^ LENGTH(8)" by simp
  then have "unat (pos + 1) = unat pos + unat (1 :: byte)"
    by (simp only: unat_add_lem [THEN iffD1])
  then show ?thesis by simp
qed

lemma byte_pred: "odd (unat (pos :: byte)) \<Longrightarrow> unat (pos - 1) = unat pos - 1"
proof -
  assume "odd (unat pos)"
  then have "pos \<noteq> 0" by auto
  then show ?thesis by (rule unat_minus_one)
qed

lemma sibling_less: "x < 2 ^ Suc n \<Longrightarrow> sibling x < 2 ^ Suc n"
proof -
  assume x: "x < 2 ^ Suc n"
  show ?thesis
  proof (cases "even x")
    case True
    moreover have "even ((2::nat) ^ Suc n)" by simp
    ultimately have "x + 1 \<noteq> 2 ^ Suc n" by (metis even_plus_one_iff)
    with x True show ?thesis by (simp add: sibling_def)
  next
    case False
    with x show ?thesis by (simp add: sibling_def)
  qed
qed

lemma proof_path_Suc:
  "proof_path t (Suc n) x = t ! Suc n ! sibling x # proof_path t n (x div 2)"
  unfolding proof_path_def
  by (simp add: map_upt_Suc div_mult2_eq del: upt_Suc)

lemma proof_loop_path:
  "well_formed t \<Longrightarrow> n < length t \<Longrightarrow> unat pos < 2 ^ n \<Longrightarrow>
   proof_loop t n pos buf = Ok (buf @ concat (proof_path t n (unat pos)))"
proof (induction n arbitrary: pos buf)
  case 0
  then show ?case by (simp add: proof_path_def)
next
  case (Suc n)
  let ?x = "unat pos"
  have len: "length (t ! Suc n) = 2 ^ Suc n"
    using Suc.prems by (simp add: wf_length)
  have sib: "sibling ?x < length (t ! Suc n)"
    using sibling_less [of ?x n] Suc.prems(3) len by simp
  have half: "unat (pos div 2) < 2 ^ n"
    using Suc.prems(3) by (simp add: byte_div2)
  have n_lt: "n < length t" using Suc.prems(2) by simp
  note IH = Suc.IH [OF Suc.prems(1) n_lt half]
  show ?case
  proof (cases "even ?x")
    case True
    then have idx: "unat (pos + 1) = sibling ?x"
      by (simp add: byte_succ sibling_def)
    from True have m: "pos mod 2 = 0" by (simp add: byte_mod2)
    show ?thesis
      using Suc.prems(2) sib
      by (simp add: m idx IH proof_path_Suc byte_div2 Bytes_def)
  next
    case False
    then have idx: "unat (pos - 1) = sibling ?x"
      by (simp add: byte_pred sibling_def)
    from False have m: "pos mod 2 \<noteq> 0" by (simp add: byte_mod2)
    show ?thesis
      using Suc.prems(2) sib
      by (simp add: m idx IH proof_path_Suc byte_div2 Bytes_def)
  qed
qed

lemma ReadFull_prefix:
  "length buf = length s \<Longrightarrow> s \<noteq> [] \<Longrightarrow> ReadFull (s @ more) buf = Ok (s, more)"
  by (simp add: ReadFull_def)

lemma wf_combine:
  assumes "well_formed t" and "Suc n < length t" and "x < 2 ^ Suc n"
  shows "(if even x then hashLevel (t ! Suc n ! x) (t ! Suc n ! sibling x)
          else hashLevel (t ! Suc n ! sibling x) (t ! Suc n ! x)) = t ! n ! (x div 2)"
proof -
  have j: "x div 2 < 2 ^ n" using assms(3) by simp
  note par = wf_parent [OF assms(1,2) j]
  show ?thesis
  proof (cases "even x")
    case True
    then have "2 * (x div 2) = x" by simp
    with True par show ?thesis by (simp add: sibling_def)
  next
    case False
    then have "2 * (x div 2) + 1 = x" by presburger
    moreover from this have "2 * (x div 2) = x - 1" by simp
    ultimately show ?thesis using False par by (simp add: sibling_def)
  qed
qed

lemma verify_loop_path:
  "well_formed t \<Longrightarrow> list_all (list_all hash_ok) t \<Longrightarrow> n < length t \<Longrightarrow>
   unat pos < 2 ^ n \<Longrightarrow> i + n = MerkleTreeHeight \<Longrightarrow> length proofHash = 32 \<Longrightarrow>
   verify_loop i (concat (proof_path t n (unat pos))) proofHash pos (t ! n ! unat pos) =
     Some (t ! 0 ! 0)"
proof (induction n arbitrary: pos i proofHash)
  case 0
  then show ?case by (subst verify_loop.simps) simp
next
  case (Suc n)
  let ?x = "unat pos"
  let ?s = "t ! Suc n ! sibling ?x"
  have len: "length (t ! Suc n) = 2 ^ Suc n"
    using Suc.prems by (simp add: wf_length)
  have sib: "sibling ?x < length (t ! Suc n)"
    using sibling_less [of ?x n] Suc.prems(4) len by simp
  have "list_all hash_ok (t ! Suc n)"
    using Suc.prems(2,3) by (simp add: list_all_length)
  with sib have s32: "length ?s = 32"
    by (simp add: list_all_length hash_ok_def)
  then have rf: "ReadFull (?s @ concat (proof_path t n (?x div 2))) proofHash =
                   Ok (?s, concat (proof_path t n (?x div 2)))"
    using Suc.prems(6) by (intro ReadFull_prefix) auto
  have half: "unat (pos div 2) < 2 ^ n"
    using Suc.prems(4) by (simp add: byte_div2)
  have n_lt: "n < length t" using Suc.prems(3) by simp
  have i_lt: "i < MerkleTreeHeight" and i': "i + 1 + n = MerkleTreeHeight"
    using Suc.prems(5) by simp_all
  note IH = Suc.IH [OF Suc.prems(1,2) n_lt half i' s32]
  have comb: "(if pos mod 2 = 0 then hashLevel (t ! Suc n ! ?x) ?s
               else hashLevel ?s (t ! Suc n ! ?x)) = t ! n ! unat (pos div 2)"
    using wf_combine [OF Suc.prems(1,3,4)] by (simp add: byte_mod2 byte_div2)
  show ?case
    apply (subst verify_loop.simps)
    apply (simp only: proof_path_Suc concat.simps rf i_lt if_True result.case prod.case comb)
    using IH apply (simp only: byte_div2)
    done
qed

lemma length_concat_hashes:
  "list_all hash_ok hs \<Longrightarrow> length (concat hs) = 32 * length hs"
  by (induction hs) (simp_all add: hash_ok_def)

lemma proof_path_ok:
  assumes "well_formed t" and "list_all (list_all hash_ok) t" and "n < length t" and "x < 2 ^ n"
  shows "list_all hash_ok (proof_path t n x)"
proof -
  have "hash_ok (t ! (n - j) ! sibling (x div 2 ^ j))" if "j < n" for j
  proof -
    from that obtain m where m: "n - j = Suc m" by (cases "n - j") auto
    with assms(3) have lt: "Suc m < length t" by simp
    have "(2::nat) ^ n = 2 ^ (n - j) * 2 ^ j"
      using that by (simp add: power_add [symmetric])
    with assms(4) have "x < 2 ^ (n - j) * 2 ^ j" by simp
    then have "x div 2 ^ j < 2 ^ (n - j)"
      by (rule less_mult_imp_div_less)
    then have "sibling (x div 2 ^ j) < 2 ^ Suc m"
      using sibling_less [of "x div 2 ^ j" m] m by simp
    then have "sibling (x div 2 ^ j) < length (t ! Suc m)"
      using wf_length [OF assms(1) lt] by simp
    moreover have "list_all hash_ok (t ! Suc m)"
      using assms(2) lt by (simp add: list_all_length)
    ultimately show ?thesis using m by (simp add: list_all_length)
  qed
  then show ?thesis
    by (simp add: proof_path_def list_all_iff)
qed

lemma MakeSectorProof_path:
  assumes "well_formed t" and "list_all (list_all hash_ok) t" and "8 < length t"
  shows "MakeSectorProof t p = Ok (concat (proof_path t 8 (unat p)))"
proof -
  have p: "unat p < 2 ^ 8" using unsigned_less [of p, where ?'a = nat] by simp
  have "length (concat (proof_path t 8 (unat p))) = 256"
    using length_concat_hashes [OF proof_path_ok [OF assms p]] by (simp add: proof_path_def)
  with proof_loop_path [OF assms(1,3) p, of "[]"] show ?thesis
    by (simp add: MakeSectorProof_def SubsectorProofLevel_def MerkleProofLen_def)
qed

text \<open>
  Claim C2. Sector-proof completeness: let \<open>T\<close> be a well-formed tree of height at least
  8 whose digests have 32 bytes, \<open>S\<close> a sector and \<open>p\<close> a position (a byte, so within
  0 to 255) such that \<open>HashSector\<close> of \<open>S\<close> returns the entry at position \<open>p\<close> of level 8 of
  \<open>T\<close>. Then \<open>Root T\<close> and \<open>MakeSectorProof T p\<close> return, and \<open>VerifySectorProof\<close> of
  \<open>S\<close>, \<open>p\<close>, that root and that proof returns true.
\<close>

theorem sector_proof_completeness:
  assumes "well_formed T" and "list_all (list_all hash_ok) T"
    and "Height T = Ok h" and "8 \<le> h"
    and "HashSector SectorLen S = Ok (T ! 8 ! unat p)"
  shows "\<exists>root prf. Root T = Ok root \<and> MakeSectorProof T p = Ok prf \<and>
           VerifySectorProof SectorLen S p root prf = Ok True"
proof -
  from assms(3,4) have len: "8 < length T"
    by (auto simp: Height_def split: if_splits)
  have p: "unat p < 2 ^ 8" using unsigned_less [of p, where ?'a = nat] by simp
  have "verify_loop 0 (concat (proof_path T 8 (unat p))) zero_Hash p (T ! 8 ! unat p) =
          Some (T ! 0 ! 0)"
    by (rule verify_loop_path [OF assms(1,2) len p])
      (simp_all add: MerkleTreeHeight_def zero_Hash_def)
  then have "VerifySectorProof SectorLen S p (T ! 0 ! 0) (concat (proof_path T 8 (unat p))) = Ok True"
    by (simp add: VerifySectorProof_def assms(5))
  with wf_Root [OF assms(1)] MakeSectorProof_path [OF assms(1,2) len, of p]
  show ?thesis by simp
qed

section \<open>All-zero sectors and blobs\<close>

lemma Root_append: "t \<noteq> [] \<Longrightarrow> Root (t @ u) = Root t"
  by (cases t) (simp_all add: Root_def)

lemma up_levels_nonempty: "up_levels k xs \<noteq> []"
  using up_levels_length [of k xs] by auto

lemma Root_up_levels: "(pairs ^^ k) xs = h # hs \<Longrightarrow> Root (up_levels k xs) = Ok h"
proof (induction k arbitrary: xs)
  case 0
  then show ?case by (simp add: Root_def)
next
  case (Suc k)
  then have "(pairs ^^ k) (pairs xs) = h # hs" by (simp add: funpow_swap1)
  then have "Root (up_levels k (pairs xs)) = Ok h" by (rule Suc.IH)
  then show ?case by (simp add: Root_append up_levels_nonempty)
qed

lemma pow2_12_le_MaxUint32: "k \<le> 12 \<Longrightarrow> (2::int) ^ k \<le> MaxUint32"
proof -
  assume "k \<le> 12"
  then have "(2::int) ^ k \<le> 2 ^ 12" by (intro power_increasing) simp_all
  then show ?thesis by (simp add: MaxUint32_def)
qed

lemma zero_tree_build:
  assumes "k \<le> 12"
  shows "NewMerkleTreeFromReader (replicate (4096 * 2 ^ k) 0) (2 ^ k) 4096 =
           Ok (up_levels k (replicate (2 ^ k) (zero_hashes ! 0)), [])"
proof -
  have "NewMerkleTreeFromReader (replicate (4096 * 2 ^ k) 0) (2 ^ k) 4096 =
          Ok (up_levels k (leaf_hashes (replicate (4096 * 2 ^ k) 0) (2 ^ k) (nat 4096)),
              drop (2 ^ k * nat 4096) (replicate (4096 * 2 ^ k) 0))"
    by (rule NewMerkleTreeFromReader_ok) (use assms pow2_12_le_MaxUint32 in simp_all)
  moreover have "leaf_hashes (replicate (4096 * 2 ^ k) 0) (2 ^ k) 4096 =
                 replicate (2 ^ k) (zero_hashes ! 0)"
    by (rule leaf_hashes_zero) simp
  ultimately show ?thesis by (simp add: mult.commute)
qed

lemma zero_tree_root:
  assumes "k \<le> 12"
  shows "Root (up_levels k (replicate (2 ^ k) (zero_hashes ! 0))) = Ok (zero_hashes ! k)"
proof -
  have "(pairs ^^ k) (replicate (2 ^ k * 1) (zero_hashes ! 0)) = replicate 1 (zero_hashes ! (0 + k))"
    by (rule funpow_pairs_zero) (use assms in simp)
  then have "(pairs ^^ k) (replicate (2 ^ k) (zero_hashes ! 0)) = zero_hashes ! k # []"
    by simp
  then show ?thesis by (rule Root_up_levels)
qed

lemma HashSector_zero:
  assumes "k \<le> 12"
  shows "HashSector (4096 * 2 ^ k) (replicate (4096 * 2 ^ k) 0) = Ok (zero_hashes ! k)"
  using zero_tree_build [OF assms] zero_tree_root [OF assms]
  by (simp add: HashSector_def SubsectorCountSector_def SubsectorSize_def)

lemma Merkleize_zero:
  assumes "k \<le> 12"
  shows "Merkleize (4096 * 2 ^ k) (replicate (4096 * 2 ^ k) 0) =
           Ok (up_levels k (replicate (2 ^ k) (zero_hashes ! 0)), [])"
  using zero_tree_build [OF assms]
  by (simp add: Merkleize_def SubsectorCountBlob_def SubsectorSize_def)

lemma zero_hashes_ok: "list_all hash_ok zero_hashes"
  by code_simp

lemma zero_tree_hashes_ok:
  assumes "b + h \<le> 12"
  shows "list_all (list_all hash_ok) (zero_tree b h)"
proof -
  have len: "length zero_hashes = 13" by code_simp
  have "hash_ok (zero_hashes ! j)" if "j \<le> 12" for j
    using zero_hashes_ok len that by (simp add: list_all_length)
  then show ?thesis
    using assms by (auto simp: zero_tree_def list_all_iff)
qed

text \<open>
  The theorem at the all-zero tree of height 8 over 256 empty-sector digests, an
  all-zero sector of 16 subsectors and position 5.
\<close>

theorem sector_proof_completeness_witness:
  "well_formed (zero_tree 4 8) \<and> list_all (list_all hash_ok) (zero_tree 4 8) \<and>
   Height (zero_tree 4 8) = Ok 8 \<and>
   HashSector 65536 (replicate 65536 0) = Ok (zero_tree 4 8 ! 8 ! unat (5 :: byte)) \<and>
   (\<exists>prf. MakeSectorProof (zero_tree 4 8) 5 = Ok prf \<and>
      VerifySectorProof 65536 (replicate 65536 0) 5 EmptyBlobMerkleRoot prf = Ok True)"
proof -
  have wf: "well_formed (zero_tree 4 8)"
    by (rule well_formed_zero_tree) simp
  have ok: "list_all (list_all hash_ok) (zero_tree 4 8)"
    by (rule zero_tree_hashes_ok) simp
  have ht: "Height (zero_tree 4 8) = Ok 8"
    by (simp add: Height_def length_zero_tree)
  have hs: "HashSector 65536 (replicate 65536 0) = Ok (zero_tree 4 8 ! 8 ! unat (5 :: byte))"
    using HashSector_zero [of 4] by (simp add: zero_tree_nth)
  have rt: "Root (zero_tree 4 8) = Ok EmptyBlobMerkleRoot"
    using wf_Root [OF wf] by (simp add: zero_tree_nth zero_hashes_12)
  from sector_proof_completeness [OF wf ok ht _ hs] rt
  show ?thesis using wf ok ht hs by auto
qed

text \<open>
  Claim C4 (amended). \<open>hashLeaf\<close> of an all-zero block of 4096 bytes is
  \<open>zero4kSectorHash\<close>; \<open>HashSector\<close> of an all-zero sector of 16 subsectors (a sector of
  65536 bytes) is \<open>EmptyBlobBaseHash\<close>; and \<open>Merkleize\<close> of an all-zero blob of 4096
  subsectors (a blob of 16777216 bytes) returns a tree whose root is
  \<open>EmptyBlobMerkleRoot\<close>.
\<close>

theorem zero_content_constants:
  "hashLeaf (replicate 4096 0) = zero4kSectorHash \<and>
   HashSector 65536 (replicate 65536 0) = Ok EmptyBlobBaseHash \<and>
   (\<exists>T. Merkleize 16777216 (replicate 16777216 0) = Ok (T, []) \<and>
      Root T = Ok EmptyBlobMerkleRoot)"
proof -
  have "hashLeaf (replicate 4096 0) = zero4kSectorHash"
    by (simp add: hashLeaf_zero zero_hashes_0)
  moreover have "HashSector 65536 (replicate 65536 0) = Ok EmptyBlobBaseHash"
    using HashSector_zero [of 4] by (simp add: zero_hashes_4)
  moreover have "Merkleize 16777216 (replicate 16777216 0) =
                   Ok (up_levels 12 (replicate (2 ^ 12) (zero_hashes ! 0)), [])"
    using Merkleize_zero [of 12] by simp
  moreover have "Root (up_levels 12 (replicate (2 ^ 12) (zero_hashes ! 0))) = Ok EmptyBlobMerkleRoot"
    using zero_tree_root [of 12] by (simp add: zero_hashes_12)
  ultimately show ?thesis by blast
qed

text \<open>
  Claim C4 as it was stated has a sector of 256 all-zero subsectors. Its hash is the
  ninth key of the table, not \<open>EmptyBlobBaseHash\<close>, which is the fifth.
\<close>

lemma zero_hashes_8_neq: "zero_hashes ! 8 \<noteq> EmptyBlobBaseHash"
  by code_simp

theorem zero_sector_256_subsectors:
  "HashSector (256 * 4096) (replicate (256 * 4096) 0) \<noteq> Ok EmptyBlobBaseHash"
  using HashSector_zero [of 8] zero_hashes_8_neq by simp

section \<open>Correctness of the base diff\<close>

declare diff_loop.simps [simp del]

lemma diff_loop_filter:
  "diff_loop m other i out =
     out @ map word_of_nat (filter (\<lambda>j. m ! j \<noteq> other ! j) [i..<length m])"
proof (induction m other i out rule: diff_loop.induct)
  case (1 m other i out)
  show ?case
  proof (cases "i < length m")
    case False
    then show ?thesis by (subst diff_loop.simps) simp
  next
    case True
    then have "[i..<length m] = i # [Suc i..<length m]" by (rule upt_conv_Cons)
    with True "1.IH" [OF True] show ?thesis
      by (subst diff_loop.simps) simp
  qed
qed

lemma unat_byte_of_nat: "j < 256 \<Longrightarrow> unat (word_of_nat j :: byte) = j"
  by (simp add: unat_of_nat)

lemma map_unat_of_nat:
  "list_all (\<lambda>j. j < 256) js \<Longrightarrow> map unat (map word_of_nat js :: byte list) = js"
  by (induction js) (simp_all add: unat_byte_of_nat)

lemma DiffWith_positions:
  assumes "length a = 256" and "length b = 256"
  shows "map unat (DiffWith a b) = filter (\<lambda>i. a ! i \<noteq> b ! i) [0..<256]"
proof (cases "a = b")
  case True
  then show ?thesis by (simp add: DiffWith_def)
next
  case False
  have "list_all (\<lambda>j. j < 256) (filter (\<lambda>i. a ! i \<noteq> b ! i) [0..<256])"
    by (simp add: list_all_iff)
  then show ?thesis
    using False assms(1) by (simp add: DiffWith_def diff_loop_filter map_unat_of_nat del: map_map)
qed

text \<open>
  Claim C9. Base diff correctness: for all bases \<open>a\<close> and \<open>b\<close> (256 digests each),
  \<open>DiffWith a b\<close> is exactly the positions \<open>i\<close> from 0 to 255 at which \<open>a ! i\<close> differs
  from \<open>b ! i\<close>, in strictly ascending order; it is empty if and only if \<open>a = b\<close>; and
  \<open>DiffWith a b\<close> and \<open>DiffWith b a\<close> return the same set of positions.
\<close>

theorem base_diff_correct:
  assumes "length a = 256" and "length b = 256"
  shows "map unat (DiffWith a b) = filter (\<lambda>i. a ! i \<noteq> b ! i) [0..<256] \<and>
         sorted_wrt (<) (map unat (DiffWith a b)) \<and>
         (DiffWith a b = [] \<longleftrightarrow> a = b) \<and>
         set (DiffWith a b) = set (DiffWith b a)"
proof (intro conjI)
  show pos: "map unat (DiffWith a b) = filter (\<lambda>i. a ! i \<noteq> b ! i) [0..<256]"
    by (rule DiffWith_positions [OF assms])
  show "sorted_wrt (<) (map unat (DiffWith a b))"
    unfolding pos by (rule sorted_wrt_filter) simp
  show "DiffWith a b = [] \<longleftrightarrow> a = b"
  proof
    assume "DiffWith a b = []"
    with pos have "filter (\<lambda>i. a ! i \<noteq> b ! i) [0..<256] = []" by simp
    then have "\<forall>i<256. a ! i = b ! i" by (simp add: filter_empty_conv)
    with assms show "a = b" by (intro nth_equalityI) simp_all
  next
    assume "a = b"
    then show "DiffWith a b = []" by (simp add: DiffWith_def)
  qed
  have "(\<lambda>i. a ! i \<noteq> b ! i) = (\<lambda>i. b ! i \<noteq> a ! i)" by auto
  then have "DiffWith a b = DiffWith b a"
    using assms by (auto simp: DiffWith_def diff_loop_filter)
  then show "set (DiffWith a b) = set (DiffWith b a)" by simp
qed

text \<open>The theorem at the zero base and the zero base with another digest at position 3.\<close>

lemma filter_eq_single: "k < n \<Longrightarrow> filter (\<lambda>i. i = k) [0..<n] = [k]"
proof (induction n)
  case 0
  then show ?case by simp
next
  case (Suc n)
  show ?case
  proof (cases "k = n")
    case True
    then have "filter (\<lambda>i. i = k) [0..<n] = []" by simp
    with True show ?thesis by simp
  next
    case False
    with Suc show ?thesis by simp
  qed
qed

lemma zero_Hash_neq: "zero_Hash \<noteq> zero4kSectorHash"
  by code_simp

lemma diff_example:
  "filter (\<lambda>i. replicate 256 zero_Hash ! i \<noteq> (replicate 256 zero_Hash)[3 := zero4kSectorHash] ! i)
     [0..<256] = [3]"
proof -
  have "filter (\<lambda>i. replicate 256 zero_Hash ! i \<noteq> (replicate 256 zero_Hash)[3 := zero4kSectorHash] ! i)
          [0..<256] = filter (\<lambda>i. i = 3) [0..<256]"
    by (rule filter_cong) (auto simp: nth_list_update zero_Hash_neq)
  then show ?thesis by (simp add: filter_eq_single)
qed

theorem base_diff_correct_witness:
  "length (replicate 256 zero_Hash) = 256 \<and>
   length ((replicate 256 zero_Hash)[3 := zero4kSectorHash]) = 256 \<and>
   map unat (DiffWith (replicate 256 zero_Hash) ((replicate 256 zero_Hash)[3 := zero4kSectorHash])) = [3] \<and>
   DiffWith (replicate 256 zero_Hash) ((replicate 256 zero_Hash)[3 := zero4kSectorHash]) \<noteq> [] \<and>
   replicate 256 zero_Hash \<noteq> (replicate 256 zero_Hash)[3 := zero4kSectorHash]"
proof -
  have la: "length (replicate 256 zero_Hash) = 256" by simp
  have lb: "length ((replicate 256 zero_Hash)[3 := zero4kSectorHash]) = 256" by simp
  from base_diff_correct [OF la lb] diff_example
  have pos: "map unat (DiffWith (replicate 256 zero_Hash)
                ((replicate 256 zero_Hash)[3 := zero4kSectorHash])) = [3]"
    and iff: "DiffWith (replicate 256 zero_Hash) ((replicate 256 zero_Hash)[3 := zero4kSectorHash]) = [] \<longleftrightarrow>
              replicate 256 zero_Hash = (replicate 256 zero_Hash)[3 := zero4kSectorHash]"
    by simp_all
  from pos have ne: "DiffWith (replicate 256 zero_Hash)
                ((replicate 256 zero_Hash)[3 := zero4kSectorHash]) \<noteq> []"
    by auto
  with iff la lb pos show ?thesis by simp
qed

section \<open>Round trip of the tree wire format\<close>

declare encode_loop.simps [simp del] read_level.simps [simp del]

lemma fold_Write: "fold (\<lambda>node w. Write w (Bytes node)) level w = w @ level_bytes level"
  by (induction level arbitrary: w) (simp_all add: Write_def level_bytes_def)

lemma encode_loop_levels:
  "k \<le> length t \<Longrightarrow>
   encode_loop t (int k - 1) w = w @ concat (map level_bytes (rev (take k t)))"
proof (induction k arbitrary: w)
  case 0
  then show ?case by (subst encode_loop.simps) simp
next
  case (Suc k)
  then have k: "k < length t" by simp
  have "encode_loop t (int k - 1) (w @ level_bytes (t ! k)) =
        (w @ level_bytes (t ! k)) @ concat (map level_bytes (rev (take k t)))"
    by (rule Suc.IH) (use k in simp)
  then show ?case
    using k by (subst encode_loop.simps) (simp add: fold_Write take_Suc_conv_app_nth)
qed

lemma MerkleTree_Encode_bytes:
  "t \<noteq> [] \<Longrightarrow>
   MerkleTree_Encode t w =
     Ok (w @ word_of_int (int (length t) - 1) # concat (map level_bytes (rev t)))"
  using encode_loop_levels [of "length t" t "w @ [word_of_int (int (length t) - 1)]"]
  by (simp add: MerkleTree_Encode_def Height_def Write_def)

lemma Hash_Decode_prefix: "hash_ok h \<Longrightarrow> Hash_Decode (h @ more) = Ok (h, more)"
  unfolding Hash_Decode_def hash_ok_def
  by (rule ReadFull_prefix) auto

lemma read_level_hashes:
  "list_all hash_ok hs \<Longrightarrow>
   read_level (level_bytes hs @ rest) i (i + length hs) level = Ok (level @ hs, rest)"
proof (induction hs arbitrary: i level)
  case Nil
  then show ?case by (subst read_level.simps) (simp add: level_bytes_def)
next
  case (Cons h hs)
  then have h: "hash_ok h" and hs: "list_all hash_ok hs" by simp_all
  have "read_level (level_bytes hs @ rest) (i + 1) (i + 1 + length hs) (level @ [h]) =
        Ok ((level @ [h]) @ hs, rest)"
    by (rule Cons.IH [OF hs])
  then show ?case
    using Hash_Decode_prefix [OF h, of "level_bytes hs @ rest"]
    by (subst read_level.simps) (simp add: level_bytes_def Bytes_def)
qed

lemma ws_length: "well_shaped t \<Longrightarrow> i < length t \<Longrightarrow> length (t ! i) = 2 ^ i"
  by (simp add: well_shaped_def list_all_iff)

lemma ws_hashes: "well_shaped t \<Longrightarrow> i < length t \<Longrightarrow> list_all hash_ok (t ! i)"
  by (simp add: well_shaped_def list_all_length)

lemma read_level_ws:
  assumes "well_shaped t" and "k < length t"
  shows "read_level (level_bytes (t ! k) @ rest) 0 (2 ^ k) [] = Ok (t ! k, rest)"
  using read_level_hashes [OF ws_hashes [OF assms], of rest 0 "[]"] ws_length [OF assms]
  by simp

lemma decode_loop_levels:
  "well_shaped t \<Longrightarrow> k < length t \<Longrightarrow>
   decode_loop (concat (map level_bytes (rev (take (Suc k) t))) @ rest) (2 ^ k) acc =
     Some (Ok (take (Suc k) t @ acc, rest))"
proof (induction k arbitrary: acc)
  case 0
  then have ne: "t \<noteq> []" by auto
  then have "take (Suc 0) t = [t ! 0]" by (cases t) simp_all
  with read_level_ws [OF "0.prems", of rest] show ?case
    by (subst decode_loop.simps) simp
next
  case (Suc k)
  then have k: "k < length t" by simp
  have tk: "take (Suc (Suc k)) t = take (Suc k) t @ [t ! Suc k]"
    using Suc.prems(2) by (rule take_Suc_conv_app_nth)
  have rd: "read_level (level_bytes (t ! Suc k) @
               concat (map level_bytes (rev (take (Suc k) t))) @ rest) 0 (2 ^ Suc k) [] =
            Ok (t ! Suc k, concat (map level_bytes (rev (take (Suc k) t))) @ rest)"
    by (rule read_level_ws [OF Suc.prems])
  have ne1: "(2::nat) ^ Suc k \<noteq> 1"
    by (metis Suc_neq_Zero nat_power_eq_Suc_0_iff numeral_eq_one_iff One_nat_def
        semiring_norm(85) zero_neq_numeral)
  have "decode_loop (concat (map level_bytes (rev (take (Suc k) t))) @ rest) (2 ^ k) (t ! Suc k # acc) =
          Some (Ok (take (Suc k) t @ t ! Suc k # acc, rest))"
    by (rule Suc.IH [OF Suc.prems(1) k])
  then show ?case
    apply (subst decode_loop.simps)
    apply (simp only: tk rev_append rev.simps append_Nil map_append list.map concat_append
        concat.simps append_assoc append_Nil2)
    apply (simp only: rd result.case prod.case ne1 if_False)
    apply simp
    done
qed

lemma byte_of_height:
  assumes "n \<le> 32"
  shows "uint (word_of_nat n :: byte) = int n" and "unat (word_of_nat n :: byte) = n"
proof -
  show u: "unat (word_of_nat n :: byte) = n"
    using assms by (simp add: unat_of_nat)
  then show "uint (word_of_nat n :: byte) = int n"
    by (metis uint_nat)
qed

lemma MerkleTree_Decode_bytes:
  assumes "well_shaped t" and "length t \<le> 33"
  shows "MerkleTree_Decode (word_of_int (int (length t) - 1) # concat (map level_bytes (rev t))) =
           Some (Ok (t, []))"
proof -
  from assms(1) have ne: "t \<noteq> []" by (simp add: well_shaped_def)
  then obtain H where H: "length t = Suc H" by (cases t) auto
  with assms(2) have H32: "H \<le> 32" by simp
  have hb: "(word_of_int (int (length t) - 1) :: byte) = word_of_nat H" using H by simp
  have rf: "ReadFull (word_of_nat H # concat (map level_bytes (rev t))) [0] =
              Ok ([word_of_nat H], concat (map level_bytes (rev t)))"
    using ReadFull_prefix [of "[0]" "[word_of_nat H]"] by simp
  have "decode_loop (concat (map level_bytes (rev (take (Suc H) t))) @ []) (2 ^ H) [] =
          Some (Ok (take (Suc H) t @ [], []))"
    by (rule decode_loop_levels [OF assms(1)]) (use H in simp)
  then have dl: "decode_loop (concat (map level_bytes (rev t))) (2 ^ H) [] = Some (Ok (t, []))"
    using H by simp
  show ?thesis
    unfolding hb MerkleTree_Decode_def
    using H32 by (simp add: rf byte_of_height dl)
qed

lemma sum_pow2: "(\<Sum>i<n. (2::nat) ^ i) = 2 ^ n - 1"
  by (induction n) simp_all

lemma length_level_bytes: "list_all hash_ok level \<Longrightarrow> length (level_bytes level) = 32 * length level"
  unfolding level_bytes_def Bytes_def by (simp add: length_concat_hashes)

lemma ws_encoding_length:
  "well_shaped t \<Longrightarrow> k \<le> length t \<Longrightarrow>
   length (concat (map level_bytes (rev (take k t)))) = 32 * (2 ^ k - 1)"
proof (induction k)
  case 0
  then show ?case by simp
next
  case (Suc k)
  then have k: "k < length t" by simp
  have "length (level_bytes (t ! k)) = 32 * 2 ^ k"
    using length_level_bytes [OF ws_hashes [OF Suc.prems(1) k]] ws_length [OF Suc.prems(1) k]
    by simp
  moreover have "length (concat (map level_bytes (rev (take k t)))) = 32 * (2 ^ k - 1)"
    by (rule Suc.IH) (use Suc.prems in simp_all)
  moreover have "(1::nat) \<le> 2 ^ k" by simp
  ultimately show ?case
    using k by (simp add: take_Suc_conv_app_nth algebra_simps)
qed

lemma concat_level_bytes: "concat (map level_bytes ls) = concat (map Bytes (concat ls))"
  by (induction ls) (simp_all add: level_bytes_def)

text \<open>
  Claim C6. Tree wire round trip: for every well-shaped tree \<open>T\<close> of height \<open>H\<close> at most
  32, \<open>MerkleTree_Encode\<close> writes one height byte followed by the digests of the levels,
  the leaf level first and the root last, each level left to right:
  \<open>2 ^ (H + 1) - 1\<close> digests of 32 bytes. \<open>MerkleTree_Decode\<close> of these bytes returns,
  with no error, the tree \<open>T\<close> itself (the same levels, hence the same root), having
  read all of them.
\<close>

theorem tree_wire_round_trip:
  assumes "well_shaped T" and "Height T = Ok H" and "H \<le> 32"
  shows "\<exists>bs. MerkleTree_Encode T [] = Ok bs \<and>
           bs = word_of_int H # concat (map Bytes (concat (rev T))) \<and>
           length bs = 1 + 32 * (2 ^ (nat H + 1) - 1) \<and>
           MerkleTree_Decode bs = Some (Ok (T, []))"
proof -
  from assms(1) have ne: "T \<noteq> []" by (simp add: well_shaped_def)
  from assms(2) ne have H: "H = int (length T) - 1"
    by (simp add: Height_def)
  with assms(3) have len: "length T \<le> 33" by simp
  from H ne have nat: "nat H + 1 = length T"
    by (cases T) simp_all
  let ?bs = "word_of_int H # concat (map level_bytes (rev T))"
  have enc: "MerkleTree_Encode T [] = Ok ?bs"
    using MerkleTree_Encode_bytes [OF ne, of "[]"] H by simp
  have dec: "MerkleTree_Decode ?bs = Some (Ok (T, []))"
    using MerkleTree_Decode_bytes [OF assms(1) len] H by simp
  have "length (concat (map level_bytes (rev (take (length T) T)))) = 32 * (2 ^ length T - 1)"
    by (rule ws_encoding_length [OF assms(1)]) simp
  then have cnt: "length ?bs = 1 + 32 * (2 ^ (nat H + 1) - 1)"
    using nat by simp
  from enc dec cnt show ?thesis
    by (simp add: concat_level_bytes)
qed

text \<open>The theorem at the all-zero tree of height 1.\<close>

lemma well_shaped_zero_tree: "b + h \<le> 12 \<Longrightarrow> well_shaped (zero_tree b h)"
  using zero_tree_hashes_ok [of b h] length_zero_tree [of b h]
  by (auto simp: well_shaped_def list_all_iff zero_tree_nth)

theorem tree_wire_round_trip_witness:
  "well_shaped (zero_tree 0 1) \<and> Height (zero_tree 0 1) = Ok 1 \<and>
   MerkleTree_Encode (zero_tree 0 1) [] =
     Ok (1 # zero_hashes ! 0 @ zero_hashes ! 0 @ zero_hashes ! 1) \<and>
   length (1 # zero_hashes ! 0 @ zero_hashes ! 0 @ zero_hashes ! 1) = 97 \<and>
   MerkleTree_Decode (1 # zero_hashes ! 0 @ zero_hashes ! 0 @ zero_hashes ! 1) =
     Some (Ok (zero_tree 0 1, []))"
proof -
  have ws: "well_shaped (zero_tree 0 1)"
    by (rule well_shaped_zero_tree) simp
  have ht: "Height (zero_tree 0 1) = Ok 1"
    by (simp add: Height_def length_zero_tree)
  have bs: "word_of_int 1 # concat (map Bytes (concat (rev (zero_tree 0 1)))) =
            (1 :: byte) # zero_hashes ! 0 @ zero_hashes ! 0 @ zero_hashes ! 1"
    by (simp add: zero_tree_def Bytes_def numeral_2_eq_2)
  from tree_wire_round_trip [OF ws ht] bs
  have "MerkleTree_Encode (zero_tree 0 1) [] =
          Ok (1 # zero_hashes ! 0 @ zero_hashes ! 0 @ zero_hashes ! 1) \<and>
        length ((1 :: byte) # zero_hashes ! 0 @ zero_hashes ! 0 @ zero_hashes ! 1) =
          1 + 32 * (2 ^ (nat 1 + 1) - 1) \<and>
        MerkleTree_Decode (1 # zero_hashes ! 0 @ zero_hashes ! 0 @ zero_hashes ! 1) =
          Some (Ok (zero_tree 0 1, []))"
    by auto
  with ws ht show ?thesis by simp
qed

text \<open>
  Claim C10. \<open>MerkleTree_Decode\<close> checks no hash: on the height byte 1 followed by
  twice the digest \<open>zero4kSectorHash\<close> and then 32 zero bytes it returns a tree without an
  error; the root of that tree is the last digest as it was read, and it is not
  \<open>hashLevel\<close> of the two digests of level 1.
\<close>

theorem decode_without_validation:
  "MerkleTree_Decode (1 # zero4kSectorHash @ zero4kSectorHash @ zero_Hash) =
     Some (Ok ([[zero_Hash], [zero4kSectorHash, zero4kSectorHash]], [])) \<and>
   Root [[zero_Hash], [zero4kSectorHash, zero4kSectorHash]] = Ok zero_Hash \<and>
   hashLevel zero4kSectorHash zero4kSectorHash \<noteq> zero_Hash"
proof -
  have ws: "well_shaped [[zero_Hash], [zero4kSectorHash, zero4kSectorHash]]"
    by (simp add: well_shaped_def hash_ok_def zero_Hash_def zero4kSectorHash_def)
  have "MerkleTree_Decode (1 # zero4kSectorHash @ zero4kSectorHash @ zero_Hash) =
          Some (Ok ([[zero_Hash], [zero4kSectorHash, zero4kSectorHash]], []))"
    using MerkleTree_Decode_bytes [OF ws] by (simp add: level_bytes_def Bytes_def)
  moreover have "Root [[zero_Hash], [zero4kSectorHash, zero4kSectorHash]] = Ok zero_Hash"
    by (simp add: Root_def)
  moreover have "hashLevel zero4kSectorHash zero4kSectorHash \<noteq> zero_Hash"
    by code_simp
  ultimately show ?thesis by blast
qed

section \<open>Decoding a base\<close>

declare base_decode_loop.simps [simp del]

lemma Read_chunk:
  "hash_ok h \<Longrightarrow> length hash = 32 \<Longrightarrow> Read (h @ rest) hash = Ok (h, rest)"
  by (auto simp: Read_def hash_ok_def min_def)

lemma base_decode_loop_chunks:
  "list_all hash_ok hs \<Longrightarrow> length hash = 32 \<Longrightarrow> i + length hs \<le> length res \<Longrightarrow>
   base_decode_loop (concat hs @ rest) hash i res =
     base_decode_loop rest (last (hash # hs)) (i + length hs)
       (take i res @ hs @ drop (i + length hs) res)"
proof (induction hs arbitrary: hash i res)
  case Nil
  then show ?case by simp
next
  case (Cons h hs)
  then have h: "hash_ok h" and hs: "list_all hash_ok hs" and i: "i < length res"
    by simp_all
  have h32: "length h = 32" using h by (simp add: hash_ok_def)
  have "base_decode_loop (concat hs @ rest) h (i + 1) (res[i := h]) =
        base_decode_loop rest (last (h # hs)) (i + 1 + length hs)
          (take (i + 1) (res[i := h]) @ hs @ drop (i + 1 + length hs) (res[i := h]))"
    by (rule Cons.IH [OF hs h32]) (use Cons.prems in simp)
  moreover have "take (i + 1) (res[i := h]) = take i res @ [h]"
    using i by (simp add: take_Suc_conv_app_nth)
  ultimately show ?case
    using i Read_chunk [OF h Cons.prems(2), of "concat hs @ rest"]
    by (subst base_decode_loop.simps) simp
qed

lemma MerkleBase_Decode_full:
  assumes "list_all hash_ok hs" and "length hs = 256"
  shows "MerkleBase_Decode (concat hs @ rest) = Ok (hs, rest)"
proof -
  have "base_decode_loop (concat hs @ rest) zero_Hash 0 ZeroMerkleBase =
        base_decode_loop rest (last (zero_Hash # hs)) (0 + length hs)
          (take 0 ZeroMerkleBase @ hs @ drop (0 + length hs) ZeroMerkleBase)"
    by (rule base_decode_loop_chunks [OF assms(1)])
      (simp_all add: zero_Hash_def ZeroMerkleBase_def assms(2))
  then show ?thesis
    unfolding MerkleBase_Decode_def
    by (subst (asm) (2) base_decode_loop.simps) (simp add: assms(2) ZeroMerkleBase_def)
qed

lemma MerkleBase_Encode_bytes: "MerkleBase_Encode m w = w @ concat m"
  unfolding MerkleBase_Encode_def
  by (induction m arbitrary: w) (simp_all add: Write_def)

lemma MerkleBase_round_trip:
  "list_all hash_ok m \<Longrightarrow> length m = 256 \<Longrightarrow> MerkleBase_Decode (MerkleBase_Encode m []) = Ok (m, [])"
  using MerkleBase_Decode_full [of m "[]"] by (simp add: MerkleBase_Encode_bytes)

lemma MerkleBase_Decode_truncated:
  assumes "list_all hash_ok hs" and "length hs = 255" and "t \<noteq> []" and "length t < 32"
  shows "MerkleBase_Decode (concat hs @ t) =
           Ok (hs @ [t @ drop (length t) (last (zero_Hash # hs))], [])"
proof -
  let ?hash = "last (zero_Hash # hs)"
  have "\<forall>x\<in>set (zero_Hash # hs). length x = 32"
    using assms(1) by (simp add: list_all_iff hash_ok_def zero_Hash_def)
  moreover have "?hash \<in> set (zero_Hash # hs)"
    by (rule last_in_set) simp
  ultimately have l32: "length ?hash = 32" by blast
  have step: "base_decode_loop (concat hs @ t) zero_Hash 0 ZeroMerkleBase =
        base_decode_loop t ?hash (0 + length hs)
          (take 0 ZeroMerkleBase @ hs @ drop (0 + length hs) ZeroMerkleBase)"
    by (rule base_decode_loop_chunks [OF assms(1)])
      (simp_all add: zero_Hash_def ZeroMerkleBase_def assms(2))
  have rd: "Read t ?hash = Ok (t @ drop (length t) ?hash, [])"
    using assms(3,4) l32 by (simp add: Read_def min_def)
  have res: "take 0 ZeroMerkleBase @ hs @ drop 255 ZeroMerkleBase = hs @ [zero_Hash]"
    by (simp add: ZeroMerkleBase_def)
  have upd: "(hs @ [zero_Hash])[255 := t @ drop (length t) ?hash] =
             hs @ [t @ drop (length t) ?hash]"
    using assms(2) by (simp add: list_update_append)
  have "base_decode_loop t ?hash 255 (hs @ [zero_Hash]) =
          Ok (hs @ [t @ drop (length t) ?hash], [])"
    apply (subst base_decode_loop.simps)
    apply (simp add: assms(2) rd upd del: last.simps)
    apply (subst base_decode_loop.simps)
    apply (simp add: assms(2))
    done
  with step show ?thesis
    unfolding MerkleBase_Decode_def by (simp only: res assms(2) add_0)
qed

text \<open>
  Claim C7 has \<open>MerkleBase_Decode\<close> return an error on every input shorter than 8192
  bytes. The code calls \<^verbatim>\<open>r.Read\<close> and drops the count it returns, so a last read that
  comes short is taken for a whole digest. On 8160 bytes \<open>0xAA\<close> followed by 31 bytes
  \<open>0xBB\<close> (8191 bytes) it returns a base and no error; the last digest is the 31 bytes
  read, followed by the last byte of the digest before it.
\<close>

theorem base_decode_accepts_truncated:
  "length (concat (replicate 255 (replicate 32 (0xAA :: byte))) @ replicate 31 (0xBB :: byte)) = 8191 \<and>
   MerkleBase_Decode (concat (replicate 255 (replicate 32 0xAA)) @ replicate 31 0xBB) =
     Ok (replicate 255 (replicate 32 0xAA) @ [replicate 31 0xBB @ [0xAA]], [])"
proof -
  have len: "length (concat (replicate 255 (replicate 32 (0xAA :: byte))) @ replicate 31 (0xBB :: byte)) = 8191"
    by (simp add: length_concat sum_list_replicate)
  have ok: "list_all hash_ok (replicate 255 (replicate 32 (0xAA :: byte)))"
    by (simp add: list_all_iff hash_ok_def)
  have lst: "last (zero_Hash # replicate 255 (replicate 32 (0xAA :: byte))) = replicate 32 0xAA"
    by simp
  have "MerkleBase_Decode (concat (replicate 255 (replicate 32 0xAA)) @ replicate 31 0xBB) =
     Ok (replicate 255 (replicate 32 0xAA) @
          [replicate 31 0xBB @
           drop (length (replicate 31 (0xBB :: byte)))
             (last (zero_Hash # replicate 255 (replicate 32 (0xAA :: byte))))], [])"
    by (rule MerkleBase_Decode_truncated [OF ok]) simp_all
  then have "MerkleBase_Decode (concat (replicate 255 (replicate 32 0xAA)) @ replicate 31 0xBB) =
     Ok (replicate 255 (replicate 32 0xAA) @ [replicate 31 0xBB @ [0xAA]], [])"
    by (simp only: lst length_replicate drop_replicate) simp
  with len show ?thesis by blast
qed

section \<open>The sectors of a blob\<close>

lemma pairs_drop: "pairs (drop (2 * m) xs) = drop m (pairs xs)"
proof (induction xs arbitrary: m rule: pairs.induct)
  case (1 l r xs)
  then show ?case by (cases m) simp_all
next
  case (2 x)
  then show ?case by (cases m) simp_all
next
  case 3
  then show ?case by simp
qed

lemma pairs_take: "pairs (take (2 * m) xs) = take m (pairs xs)"
proof (induction xs arbitrary: m rule: pairs.induct)
  case (1 l r xs)
  then show ?case by (cases m) simp_all
next
  case (2 x)
  then show ?case by (cases m) simp_all
next
  case 3
  then show ?case by simp
qed

lemma funpow_pairs_take_drop:
  "(pairs ^^ k) (take (2 ^ k * n) (drop (2 ^ k * m) xs)) = take n (drop m ((pairs ^^ k) xs))"
proof (induction k arbitrary: xs)
  case 0
  then show ?case by simp
next
  case (Suc k)
  have "pairs (take (2 * (2 ^ k * n)) (drop (2 * (2 ^ k * m)) xs)) =
        take (2 ^ k * n) (drop (2 ^ k * m) (pairs xs))"
    by (simp only: pairs_take pairs_drop)
  then have "pairs (take (2 ^ Suc k * n) (drop (2 ^ Suc k * m) xs)) =
        take (2 ^ k * n) (drop (2 ^ k * m) (pairs xs))"
    by (simp add: mult.assoc)
  with Suc.IH [of "pairs xs"] show ?case
    by (simp only: funpow_Suc_right o_apply)
qed

lemma length_funpow_pairs: "length ((pairs ^^ k) xs) = length xs div 2 ^ k"
proof (induction k arbitrary: xs)
  case 0
  then show ?case by simp
next
  case (Suc k)
  have "length ((pairs ^^ Suc k) xs) = length ((pairs ^^ k) (pairs xs))"
    by (simp only: funpow_Suc_right o_apply)
  also have "\<dots> = length xs div 2 div 2 ^ k"
    by (simp add: Suc.IH length_pairs)
  also have "\<dots> = length xs div 2 ^ Suc k"
    by (simp add: div_mult2_eq)
  finally show ?case .
qed

lemma leaf_hashes_sector:
  assumes "(m + 1) * n \<le> N"
  shows "leaf_hashes (take (n * s) (drop (m * (n * s)) r)) n s = take n (drop (m * n) (leaf_hashes r N s))"
proof (rule nth_equalityI)
  show "length (leaf_hashes (take (n * s) (drop (m * (n * s)) r)) n s) =
        length (take n (drop (m * n) (leaf_hashes r N s)))"
    using assms by (simp add: length_leaf_hashes)
  fix j assume "j < length (leaf_hashes (take (n * s) (drop (m * (n * s)) r)) n s)"
  then have j: "j < n" by (simp add: length_leaf_hashes)
  then have "Suc j * s \<le> n * s" by (intro mult_le_mono1) simp
  then have room: "s \<le> n * s - j * s" by simp
  have "take s (drop (j * s) (take (n * s) (drop (m * (n * s)) r))) =
        take s (drop ((m * n + j) * s) r)"
    using room by (simp add: drop_take min_def algebra_simps)
  moreover have "m * n + j < N" using j assms by (simp add: algebra_simps)
  ultimately show "leaf_hashes (take (n * s) (drop (m * (n * s)) r)) n s ! j =
        take n (drop (m * n) (leaf_hashes r N s)) ! j"
    using j by (simp add: leaf_hashes_def)
qed

text \<open>
  The same for every sector of \<open>2 ^ k\<close> subsectors: what it takes is that the blob is
  256 sectors long.
\<close>

lemma sector_hash_base_entry_general:
  assumes "SectorLen = SubsectorSize * 2 ^ k" and "k \<le> 23"
    and "Size = 256 * SectorLen" and "length B = Size" and "p < 256"
  shows "\<exists>T base. Merkleize Size B = Ok (T, []) \<and> ProtocolBase T = Ok base \<and>
           HashSector SectorLen (take SectorLen (drop (p * SectorLen) B)) = Ok (base ! p)"
proof -
  let ?s = "4096 :: nat"
  let ?L = "leaf_hashes B (2 ^ (8 + k)) ?s"
  let ?sec = "take SectorLen (drop (p * SectorLen) B)"
  let ?L' = "leaf_hashes ?sec (2 ^ k) ?s"
  have SL: "SectorLen = 2 ^ k * ?s" using assms(1) by (simp add: SubsectorSize_def)
  have Sz: "Size = 2 ^ (8 + k) * ?s" using assms(3) SL by (simp add: power_add)
  have "(2::int) ^ (8 + k) \<le> 2 ^ 31" using assms(2) by (intro power_increasing) simp_all
  then have big: "(2::int) ^ (8 + k) \<le> MaxUint32" by (simp add: MaxUint32_def)
  have "(2::int) ^ k \<le> 2 ^ 31" using assms(2) by (intro power_increasing) simp_all
  then have small: "(2::int) ^ k \<le> MaxUint32" by (simp add: MaxUint32_def)
  have cntB: "SubsectorCountBlob Size = 2 ^ (8 + k)"
    by (simp add: SubsectorCountBlob_def SubsectorSize_def Sz)
  have cntS: "SubsectorCountSector SectorLen = 2 ^ k"
    by (simp add: SubsectorCountSector_def SubsectorSize_def SL)
  have "NewMerkleTreeFromReader B (2 ^ (8 + k)) (int ?s) =
          Ok (up_levels (8 + k) (leaf_hashes B (2 ^ (8 + k)) (nat (int ?s))),
              drop (2 ^ (8 + k) * nat (int ?s)) B)"
    by (rule NewMerkleTreeFromReader_ok) (use big assms(4) Sz in simp_all)
  then have mk: "Merkleize Size B = Ok (up_levels (8 + k) ?L, [])"
    unfolding Merkleize_def cntB SubsectorSize_def using assms(4) Sz by simp
  have lvl8: "up_levels (8 + k) ?L ! 8 = (pairs ^^ k) ?L"
    using up_levels_nth [of 8 "8 + k" ?L] by simp
  have len8: "length ((pairs ^^ k) ?L) = 256"
    by (simp add: length_funpow_pairs length_leaf_hashes power_add)
  have pb: "ProtocolBase (up_levels (8 + k) ?L) = Ok ((pairs ^^ k) ?L)"
    by (simp add: ProtocolBase_def Level_def up_levels_length lvl8 len8)
  have "Suc p \<le> 256" using assms(5) by simp
  then have "Suc p * SectorLen \<le> 256 * SectorLen"
    by (rule mult_le_mono1)
  then have "SectorLen + p * SectorLen \<le> 256 * SectorLen"
    by (simp only: mult_Suc)
  then have "SectorLen \<le> 256 * SectorLen - p * SectorLen"
    by linarith
  then have lensec: "length ?sec = SectorLen"
    using assms(3,4) by (simp add: min_def)
  have "NewMerkleTreeFromReader ?sec (2 ^ k) (int ?s) =
          Ok (up_levels k (leaf_hashes ?sec (2 ^ k) (nat (int ?s))),
              drop (2 ^ k * nat (int ?s)) ?sec)"
    by (rule NewMerkleTreeFromReader_ok) (use small lensec SL in simp_all)
  then have tree: "NewMerkleTreeFromReader ?sec (2 ^ k) (int ?s) = Ok (up_levels k ?L', [])"
    using lensec SL by simp
  have "(p + 1) * 2 ^ k \<le> 2 ^ (8 + k)"
  proof -
    have "(p + 1) * 2 ^ k \<le> 256 * 2 ^ k" using assms(5) by (intro mult_le_mono1) simp
    then show ?thesis by (simp add: power_add)
  qed
  then have "leaf_hashes (take (2 ^ k * ?s) (drop (p * (2 ^ k * ?s)) B)) (2 ^ k) ?s =
             take (2 ^ k) (drop (p * 2 ^ k) ?L)"
    by (rule leaf_hashes_sector)
  then have L': "?L' = take (2 ^ k * 1) (drop (2 ^ k * p) ?L)"
    by (simp add: SL mult.commute)
  have "(pairs ^^ k) ?L' = take 1 (drop p ((pairs ^^ k) ?L))"
    unfolding L' by (rule funpow_pairs_take_drop)
  also have "\<dots> = [(pairs ^^ k) ?L ! p]"
    using assms(5) len8 by (simp add: take_Suc_conv_app_nth)
  finally have "Root (up_levels k ?L') = Ok ((pairs ^^ k) ?L ! p)"
    by (rule Root_up_levels)
  with tree have "HashSector SectorLen ?sec = Ok ((pairs ^^ k) ?L ! p)"
    unfolding HashSector_def cntS SubsectorSize_def by simp
  with mk pb show ?thesis by blast
qed

text \<open>
  Claim C3. Sector hash equals the base entry: let the sector byte length be the
  subsector size times 256, and let \<open>B\<close> be a full blob, made of the 256 sectors at the
  positions 0 to 255 (its byte length is the blob size \<open>Merkleize\<close> works with). Then for
  every position \<open>p\<close> from 0 to 255, \<open>Merkleize\<close> of \<open>B\<close> returns a tree (having read all of
  \<open>B\<close>), \<open>ProtocolBase\<close> of that tree returns a base, and \<open>HashSector\<close> of the \<open>p\<close>-th
  sector of \<open>B\<close> returns entry \<open>p\<close> of that base.
\<close>

theorem sector_hash_equals_base_entry:
  assumes "SectorLen = SubsectorSize * 256" and "length B = 256 * SectorLen" and "p < 256"
  shows "\<exists>T base. Merkleize (length B) B = Ok (T, []) \<and> ProtocolBase T = Ok base \<and>
           HashSector SectorLen (take SectorLen (drop (p * SectorLen) B)) = Ok (base ! p)"
proof -
  from assms(1) have "SectorLen = SubsectorSize * 2 ^ 8" by simp
  then show ?thesis
    by (rule sector_hash_base_entry_general) (use assms in simp_all)
qed

text \<open>The theorem at the all-zero blob of 256 sectors of 256 subsectors, and position 3.\<close>

theorem sector_hash_equals_base_entry_witness:
  "(1048576 :: nat) = SubsectorSize * 256 \<and>
   length (replicate 268435456 (0 :: byte)) = 256 * 1048576 \<and> (3 :: nat) < 256 \<and>
   HashSector 1048576 (replicate 1048576 0) = Ok (zero_hashes ! 8) \<and>
   (\<exists>T base. Merkleize 268435456 (replicate 268435456 0) = Ok (T, []) \<and>
      ProtocolBase T = Ok base \<and> base ! 3 = zero_hashes ! 8)"
proof -
  have a: "(1048576 :: nat) = SubsectorSize * 256" by (simp add: SubsectorSize_def)
  have b: "length (replicate 268435456 (0 :: byte)) = 256 * 1048576" by simp
  have c: "(3 :: nat) < 256" by simp
  have sec: "take 1048576 (drop (3 * 1048576) (replicate 268435456 (0 :: byte))) = replicate 1048576 0"
    by simp
  have len: "length (replicate 268435456 (0 :: byte)) = 268435456" by simp
  have hs: "HashSector 1048576 (replicate 1048576 0) = Ok (zero_hashes ! 8)"
    using HashSector_zero [of 8] by simp
  from sector_hash_equals_base_entry [OF a b c]
  have "\<exists>T base. Merkleize 268435456 (replicate 268435456 0) = Ok (T, []) \<and>
          ProtocolBase T = Ok base \<and>
          HashSector 1048576 (replicate 1048576 0) = Ok (base ! 3)"
    by (simp only: sec len)
  with hs have "\<exists>T base. Merkleize 268435456 (replicate 268435456 0) = Ok (T, []) \<and>
          ProtocolBase T = Ok base \<and> base ! 3 = zero_hashes ! 8"
    by auto
  with a b c hs show ?thesis by blast
qed

end
